theory Spec2Isabelle
  imports Complex_Main "HOL-Library.Multiset"
begin

section \<open>The 8-puzzle state model of \<^verbatim>\<open>puzzlesolver.py\<close>\<close>

text \<open>
  A puzzle state is a Python list of rows, each row a list of integers. Every function of
  class \<^verbatim>\<open>EightPuzzle\<close> is embedded as a HOL function on \<open>int list list\<close>. An exception
  of the source is the left summand of the result; the Python value \<^verbatim>\<open>None\<close> is \<open>None\<close>
  of an option type.
\<close>

type_synonym state = "int list list"

datatype error = IndexError | TypeError | ZeroDivisionError | OverflowError

text \<open>\<^verbatim>\<open>self.goal_state = [[1, 2, 3], [4, 5, 6], [7, 8, 0]]\<close>\<close>

definition goal_state :: state where
  "goal_state = [[1, 2, 3], [4, 5, 6], [7, 8, 0]]"

text \<open>
  \<^verbatim>\<open>state[i][j]\<close> for indices that are never negative: an index beyond the end of the
  outer or of the inner list raises \<^verbatim>\<open>IndexError\<close>.
\<close>

definition cell :: "state \<Rightarrow> nat \<Rightarrow> nat \<Rightarrow> error + int" where
  "cell state i j =
     (if i < length state
      then (if j < length (state ! i) then Inr (state ! i ! j) else Inl IndexError)
      else Inl IndexError)"

text \<open>
  \<^verbatim>\<open>get_blank_position\<close>: the inner loop over \<^verbatim>\<open>j\<close> and the outer loop over \<^verbatim>\<open>i\<close>,
  both over \<^verbatim>\<open>range(3)\<close>; the first cell equal to 0 is returned, and \<^verbatim>\<open>None\<close> when the
  loops run out.
\<close>

fun blank_in_row :: "state \<Rightarrow> nat \<Rightarrow> nat list \<Rightarrow> error + (nat \<times> nat) option" where
  "blank_in_row state i [] = Inr None"
| "blank_in_row state i (j # js) =
     (case cell state i j of
        Inl e \<Rightarrow> Inl e
      | Inr v \<Rightarrow> if v = 0 then Inr (Some (i, j)) else blank_in_row state i js)"

fun blank_in_rows :: "state \<Rightarrow> nat list \<Rightarrow> error + (nat \<times> nat) option" where
  "blank_in_rows state [] = Inr None"
| "blank_in_rows state (i # is) =
     (case blank_in_row state i [0, 1, 2] of
        Inl e \<Rightarrow> Inl e
      | Inr (Some p) \<Rightarrow> Inr (Some p)
      | Inr None \<Rightarrow> blank_in_rows state is)"

definition get_blank_position :: "state \<Rightarrow> error + (nat \<times> nat) option" where
  "get_blank_position state = blank_in_rows state [0, 1, 2]"

text \<open>
  The body of the loop of \<^verbatim>\<open>get_neighbors\<close>: the rows are copied, the right-hand side
  \<^verbatim>\<open>(new_state[move_i][move_j], new_state[i][j])\<close> is read first, then the two cells are
  written from left to right, the second write into the already updated copy.
\<close>

definition swap_blank :: "state \<Rightarrow> nat \<Rightarrow> nat \<Rightarrow> nat \<Rightarrow> nat \<Rightarrow> error + state" where
  "swap_blank state i j move_i move_j =
     (case cell state move_i move_j of
        Inl e \<Rightarrow> Inl e
      | Inr moved \<Rightarrow>
          (case cell state i j of
             Inl e \<Rightarrow> Inl e
           | Inr blank \<Rightarrow>
               (let s1 = state[i := (state ! i)[j := moved]];
                    s2 = s1[move_i := (s1 ! move_i)[move_j := blank]]
                in Inr s2)))"

fun neighbors_of_moves ::
  "state \<Rightarrow> nat \<Rightarrow> nat \<Rightarrow> (int \<times> int) list \<Rightarrow> state list \<Rightarrow> error + state list" where
  "neighbors_of_moves state i j [] neighbors = Inr neighbors"
| "neighbors_of_moves state i j ((move_i, move_j) # moves) neighbors =
     (if 0 \<le> move_i \<and> move_i < 3 \<and> 0 \<le> move_j \<and> move_j < 3
      then (case swap_blank state i j (nat move_i) (nat move_j) of
              Inl e \<Rightarrow> Inl e
            | Inr new_state \<Rightarrow> neighbors_of_moves state i j moves (neighbors @ [new_state]))
      else neighbors_of_moves state i j moves neighbors)"

text \<open>
  \<^verbatim>\<open>get_neighbors\<close>: unpacking \<^verbatim>\<open>None\<close> into \<^verbatim>\<open>i, j\<close> raises \<^verbatim>\<open>TypeError\<close>; the moves
  are tried in the order up, down, left, right.
\<close>

definition get_neighbors :: "state \<Rightarrow> error + state list" where
  "get_neighbors state =
     (case get_blank_position state of
        Inl e \<Rightarrow> Inl e
      | Inr None \<Rightarrow> Inl TypeError
      | Inr (Some (i, j)) \<Rightarrow>
          neighbors_of_moves state i j
            [(int i - 1, int j), (int i + 1, int j), (int i, int j - 1), (int i, int j + 1)] [])"

definition is_goal :: "state \<Rightarrow> bool" where
  "is_goal state = (state = goal_state)"

text \<open>
  \<^verbatim>\<open>str\<close> of a Python integer: decimal digits, with a leading minus sign for a negative
  number.
\<close>

definition digit_char :: "nat \<Rightarrow> char" where
  "digit_char d = char_of (48 + d)"

fun str_nat :: "nat \<Rightarrow> string" where
  "str_nat n = (if n < 10 then [digit_char n] else str_nat (n div 10) @ [digit_char (n mod 10)])"

declare str_nat.simps [simp del]

definition str_int :: "int \<Rightarrow> string" where
  "str_int v = (if v < 0 then CHR ''-'' # str_nat (nat (- v)) else str_nat (nat v))"

definition state_to_string :: "state \<Rightarrow> string" where
  "state_to_string state = concat (map (\<lambda>row. concat (map str_int row)) state)"

text \<open>
  \<^verbatim>\<open>manhattan_distance\<close>: the two loops over \<^verbatim>\<open>range(3)\<close> with the accumulator
  \<^verbatim>\<open>distance\<close>. Python's \<^verbatim>\<open>//\<close> and \<^verbatim>\<open>%\<close> round towards minus infinity, as \<open>div\<close> and
  \<open>mod\<close> on \<open>int\<close> do. \<open>tile_distance i j v\<close> names what one pass of the inner loop adds
  to \<^verbatim>\<open>distance\<close> for the cell in row \<open>i\<close> and column \<open>j\<close> that holds \<open>v\<close>; the loops
  below are written as in the source and the facts relate them to it.
\<close>

definition tile_distance :: "int \<Rightarrow> int \<Rightarrow> int \<Rightarrow> int" where
  "tile_distance i j v = (if v \<noteq> 0 then \<bar>i - (v - 1) div 3\<bar> + \<bar>j - (v - 1) mod 3\<bar> else 0)"

fun manhattan_row :: "state \<Rightarrow> nat \<Rightarrow> nat list \<Rightarrow> int \<Rightarrow> error + int" where
  "manhattan_row state i [] distance = Inr distance"
| "manhattan_row state i (j # js) distance =
     (case cell state i j of
        Inl e \<Rightarrow> Inl e
      | Inr v \<Rightarrow>
          if v \<noteq> 0
          then (let goal_i = (v - 1) div 3; goal_j = (v - 1) mod 3
                in manhattan_row state i js
                     (distance + (\<bar>int i - goal_i\<bar> + \<bar>int j - goal_j\<bar>)))
          else manhattan_row state i js distance)"

fun manhattan_rows :: "state \<Rightarrow> nat list \<Rightarrow> int \<Rightarrow> error + int" where
  "manhattan_rows state [] distance = Inr distance"
| "manhattan_rows state (i # is) distance =
     (case manhattan_row state i [0, 1, 2] distance of
        Inl e \<Rightarrow> Inl e
      | Inr distance' \<Rightarrow> manhattan_rows state is distance')"

definition manhattan_distance :: "state \<Rightarrow> error + int" where
  "manhattan_distance state = manhattan_rows state [0, 1, 2] 0"


section \<open>Breadth-first search\<close>

text \<open>
  The \<^verbatim>\<open>for\<close> loop of \<^verbatim>\<open>solve_bfs\<close> over the neighbours of the dequeued state: a
  neighbour whose string is not yet in \<^verbatim>\<open>visited\<close> is added to the set and appended to
  the queue with the extended path.
\<close>

fun bfs_expand ::
  "state list \<Rightarrow> state list \<Rightarrow> string set \<Rightarrow> (state \<times> state list) list \<Rightarrow>
   string set \<times> (state \<times> state list) list" where
  "bfs_expand [] path visited queue = (visited, queue)"
| "bfs_expand (neighbor # rest) path visited queue =
     (let neighbor_str = state_to_string neighbor
      in if neighbor_str \<notin> visited
         then bfs_expand rest path (insert neighbor_str visited)
                (queue @ [(neighbor, path @ [neighbor])])
         else bfs_expand rest path visited queue)"

text \<open>
  The \<^verbatim>\<open>while queue\<close> loop. It need not end for every queue and set, so it is a partial
  function: \<open>None\<close> stands for a loop that never returns, \<open>Some (Inl e)\<close> for an exception,
  \<open>Some (Inr None)\<close> for \<^verbatim>\<open>return None\<close> and \<open>Some (Inr (Some path))\<close> for
  \<^verbatim>\<open>return path\<close>.
\<close>

partial_function (option) bfs_loop ::
  "(state \<times> state list) list \<Rightarrow> string set \<Rightarrow> (error + state list option) option" where
  "bfs_loop queue visited =
     (case queue of
        [] \<Rightarrow> Some (Inr None)
      | (state, path) # queue' \<Rightarrow>
          if is_goal state then Some (Inr (Some path))
          else (case get_neighbors state of
                  Inl e \<Rightarrow> Some (Inl e)
                | Inr neighbors \<Rightarrow>
                    (case bfs_expand neighbors path visited queue' of
                       (visited', queue'') \<Rightarrow> bfs_loop queue'' visited')))"

declare bfs_loop.simps [code]

definition solve_bfs :: "state \<Rightarrow> (error + state list option) option" where
  "solve_bfs initial_state =
     bfs_loop [(initial_state, [])] {state_to_string initial_state}"

section \<open>Bidirectional search\<close>

text \<open>
  The \<^verbatim>\<open>for\<close> loops of \<^verbatim>\<open>solve_bidirectional\<close>: the visited dictionary maps the string
  of a state to the path stored for it.
\<close>

fun bidir_expand ::
  "state list \<Rightarrow> state list \<Rightarrow> (string \<rightharpoonup> state list) \<Rightarrow> (state \<times> state list) list \<Rightarrow>
   (string \<rightharpoonup> state list) \<times> (state \<times> state list) list" where
  "bidir_expand [] path visited queue = (visited, queue)"
| "bidir_expand (neighbor # rest) path visited queue =
     (let neighbor_str = state_to_string neighbor
      in if visited neighbor_str = None
         then bidir_expand rest path (visited(neighbor_str \<mapsto> path @ [neighbor]))
                (queue @ [(neighbor, path @ [neighbor])])
         else bidir_expand rest path visited queue)"

text \<open>
  The loop \<^verbatim>\<open>while forward_queue and backward_queue\<close>: one forward step, then one
  backward step, the backward step looking into the forward dictionary as the forward step
  has just left it.
\<close>

partial_function (option) bidir_loop ::
  "(state \<times> state list) list \<Rightarrow> (string \<rightharpoonup> state list) \<Rightarrow>
   (state \<times> state list) list \<Rightarrow> (string \<rightharpoonup> state list) \<Rightarrow>
   (error + state list option) option" where
  "bidir_loop forward_queue forward_visited backward_queue backward_visited =
     (case forward_queue of
        [] \<Rightarrow> Some (Inr None)
      | (state, path) # forward_queue' \<Rightarrow>
          (case backward_queue of
             [] \<Rightarrow> Some (Inr None)
           | (bstate, bpath) # backward_queue' \<Rightarrow>
               (case backward_visited (state_to_string state) of
                  Some backward_path \<Rightarrow> Some (Inr (Some (path @ rev backward_path)))
                | None \<Rightarrow>
                    (case get_neighbors state of
                       Inl e \<Rightarrow> Some (Inl e)
                     | Inr neighbors \<Rightarrow>
                         (case bidir_expand neighbors path forward_visited forward_queue' of
                            (forward_visited', forward_queue'') \<Rightarrow>
                              (case forward_visited' (state_to_string bstate) of
                                 Some forward_path \<Rightarrow>
                                   Some (Inr (Some (forward_path @ rev bpath)))
                               | None \<Rightarrow>
                                   (case get_neighbors bstate of
                                      Inl e \<Rightarrow> Some (Inl e)
                                    | Inr bneighbors \<Rightarrow>
                                        (case bidir_expand bneighbors bpath backward_visited
                                                backward_queue' of
                                           (backward_visited', backward_queue'') \<Rightarrow>
                                             bidir_loop forward_queue'' forward_visited'
                                               backward_queue'' backward_visited'))))))))"

declare bidir_loop.simps [code]

definition solve_bidirectional :: "state \<Rightarrow> (error + state list option) option" where
  "solve_bidirectional initial_state =
     bidir_loop [(initial_state, [])] [state_to_string initial_state \<mapsto> []]
       [(goal_state, [])] [state_to_string goal_state \<mapsto> []]"

section \<open>Simulated annealing\<close>

text \<open>
  The local variables of \<^verbatim>\<open>solve_simulated_annealing\<close>. Python's floats are idealised as
  real numbers. The two random sources are parameters: \<open>choice k\<close> is the number drawn by
  \<^verbatim>\<open>random.choice\<close> in iteration \<open>k\<close> (reduced below the length of the list, since
  \<^verbatim>\<open>random.choice\<close> returns an element at an index below the length), and \<open>rnd k\<close> is the
  value of \<^verbatim>\<open>random.random()\<close> in iteration \<open>k\<close>.
\<close>

record sa_vars =
  current_state :: state
  current_energy :: int
  best_state :: state
  best_energy :: int
  temperature :: real
  path :: "state list"

text \<open>
  \<^verbatim>\<open>math.exp\<close> raises \<^verbatim>\<open>OverflowError\<close> when its result is beyond the range of a double.
\<close>

definition exp_overflows :: "real \<Rightarrow> bool" where
  "exp_overflows x = (2 ^ 1024 \<le> exp x)"

text \<open>The \<^verbatim>\<open>if next_energy < current_energy ... else ...\<close> statement.\<close>

definition sa_accept ::
  "(nat \<Rightarrow> real) \<Rightarrow> nat \<Rightarrow> state \<Rightarrow> int \<Rightarrow> sa_vars \<Rightarrow> error + sa_vars" where
  "sa_accept rnd iteration next_state next_energy v =
     (if next_energy < current_energy v
      then (let v1 = v\<lparr>current_state := next_state, current_energy := next_energy,
                        path := path v @ [next_state]\<rparr>
            in if current_energy v1 < best_energy v1
               then Inr (v1\<lparr>best_state := current_state v1, best_energy := current_energy v1\<rparr>)
               else Inr v1)
      else (let delta_energy = next_energy - current_energy v
            in if temperature v = 0 then Inl ZeroDivisionError
               else if exp_overflows (- real_of_int delta_energy / temperature v)
               then Inl OverflowError
               else (let acceptance_probability =
                           exp (- real_of_int delta_energy / temperature v)
                     in if rnd iteration < acceptance_probability
                        then Inr (v\<lparr>current_state := next_state, current_energy := next_energy,
                                    path := path v @ [next_state]\<rparr>)
                        else Inr v)))"

text \<open>Cooling, and the restart from the best state below the temperature 0.01.\<close>

definition sa_cool :: "real \<Rightarrow> real \<Rightarrow> sa_vars \<Rightarrow> sa_vars" where
  "sa_cool initial_temp cooling_rate v =
     (let v1 = v\<lparr>temperature := temperature v * cooling_rate\<rparr>
      in if temperature v1 < 0.01
         then v1\<lparr>current_state := best_state v1, current_energy := best_energy v1,
                 temperature := initial_temp * 0.5\<rparr>
         else v1)"

text \<open>One pass through the body of the \<^verbatim>\<open>for\<close> loop, after the test for energy 0.\<close>

definition sa_step ::
  "(nat \<Rightarrow> nat) \<Rightarrow> (nat \<Rightarrow> real) \<Rightarrow> real \<Rightarrow> real \<Rightarrow> nat \<Rightarrow> sa_vars \<Rightarrow> error + sa_vars" where
  "sa_step choice rnd initial_temp cooling_rate iteration v =
     (case get_neighbors (current_state v) of
        Inl e \<Rightarrow> Inl e
      | Inr neighbors \<Rightarrow>
          if neighbors = [] then Inl IndexError
          else (let next_state = neighbors ! (choice iteration mod length neighbors)
                in case manhattan_distance next_state of
                     Inl e \<Rightarrow> Inl e
                   | Inr next_energy \<Rightarrow>
                       (case sa_accept rnd iteration next_state next_energy v of
                          Inl e \<Rightarrow> Inl e
                        | Inr v' \<Rightarrow> Inr (sa_cool initial_temp cooling_rate v'))))"

text \<open>
  \<^verbatim>\<open>for iteration in range(max_iterations)\<close>, with the \<^verbatim>\<open>return path\<close> inside the loop
  and the one after it.
\<close>

fun sa_loop ::
  "(nat \<Rightarrow> nat) \<Rightarrow> (nat \<Rightarrow> real) \<Rightarrow> real \<Rightarrow> real \<Rightarrow> nat list \<Rightarrow> sa_vars \<Rightarrow>
   error + state list" where
  "sa_loop choice rnd initial_temp cooling_rate [] v = Inr (path v)"
| "sa_loop choice rnd initial_temp cooling_rate (iteration # rest) v =
     (if current_energy v = 0 then Inr (path v)
      else (case sa_step choice rnd initial_temp cooling_rate iteration v of
              Inl e \<Rightarrow> Inl e
            | Inr v' \<Rightarrow> sa_loop choice rnd initial_temp cooling_rate rest v'))"

definition solve_simulated_annealing ::
  "(nat \<Rightarrow> nat) \<Rightarrow> (nat \<Rightarrow> real) \<Rightarrow> state \<Rightarrow> int \<Rightarrow> real \<Rightarrow> real \<Rightarrow> error + state list" where
  "solve_simulated_annealing choice rnd initial_state max_iterations initial_temp cooling_rate =
     (case manhattan_distance initial_state of
        Inl e \<Rightarrow> Inl e
      | Inr energy \<Rightarrow>
          sa_loop choice rnd initial_temp cooling_rate [0 ..< nat max_iterations]
            \<lparr>current_state = initial_state, current_energy = energy,
             best_state = initial_state, best_energy = energy,
             temperature = initial_temp, path = [initial_state]\<rparr>)"

section \<open>Configurations, moves and paths\<close>

text \<open>
  A configuration is a 3 by 3 grid whose nine cells are a permutation of 0..8. A grid of
  digits only needs every cell to lie in 0..8.
\<close>

definition is_config :: "state \<Rightarrow> bool" where
  "is_config s = (map length s = [3, 3, 3] \<and> sort (concat s) = [0, 1, 2, 3, 4, 5, 6, 7, 8])"

definition is_digit_grid :: "state \<Rightarrow> bool" where
  "is_digit_grid s =
     (map length s = [3, 3, 3] \<and> list_all (\<lambda>v. 0 \<le> v \<and> v \<le> 8) (concat s))"

text \<open>
  A legal move, stated without the code: the blank cell \<open>b\<close> of \<open>s\<close> and a cell \<open>m\<close> next
  to it in the same row or column exchange their contents, and every other cell of the
  3 by 3 grid stays as it is.
\<close>

definition grid_positions :: "(nat \<times> nat) list" where
  "grid_positions = List.product [0, 1, 2] [0, 1, 2]"

definition adjacent :: "nat \<times> nat \<Rightarrow> nat \<times> nat \<Rightarrow> bool" where
  "adjacent p q =
     ((fst p = fst q \<and> (snd p = Suc (snd q) \<or> snd q = Suc (snd p))) \<or>
      (snd p = snd q \<and> (fst p = Suc (fst q) \<or> fst q = Suc (fst p))))"

definition cell_at :: "state \<Rightarrow> nat \<times> nat \<Rightarrow> int" where
  "cell_at s p = s ! fst p ! snd p"

definition one_blank_swap :: "state \<Rightarrow> state \<Rightarrow> bool" where
  "one_blank_swap s t =
     (map length t = [3, 3, 3] \<and>
      list_ex (\<lambda>b. list_ex (\<lambda>m.
          cell_at s b = 0 \<and> adjacent b m \<and> cell_at t b = cell_at s m \<and> cell_at t m = 0 \<and>
          list_all (\<lambda>p. p = b \<or> p = m \<or> cell_at t p = cell_at s p) grid_positions)
        grid_positions) grid_positions)"

text \<open>
  A list of states is a path from \<open>s\<close> when its first element is one legal move from \<open>s\<close>
  and every further element is one legal move from the element before it; the list has as
  many elements as moves. The path leads to \<open>last (s # p)\<close>.
\<close>

fun valid_path :: "state \<Rightarrow> state list \<Rightarrow> bool" where
  "valid_path s [] = True"
| "valid_path s (t # ts) = (one_blank_swap s t \<and> valid_path t ts)"

definition leads_to :: "state \<Rightarrow> state list \<Rightarrow> state \<Rightarrow> bool" where
  "leads_to s p t = (valid_path s p \<and> last (s # p) = t)"

definition reachable :: "state \<Rightarrow> state \<Rightarrow> bool" where
  "reachable s t = (\<exists>p. leads_to s p t)"

text \<open>The shortest-path distance: some path has this many moves and none has fewer.\<close>

definition is_distance :: "state \<Rightarrow> state \<Rightarrow> nat \<Rightarrow> bool" where
  "is_distance s t n =
     ((\<exists>p. leads_to s p t \<and> length p = n) \<and> (\<forall>p. leads_to s p t \<longrightarrow> n \<le> length p))"

text \<open>
  The parity of the number of inversions among the eight tiles read row by row, the blank
  left out.
\<close>

fun inversions :: "int list \<Rightarrow> nat" where
  "inversions [] = 0"
| "inversions (x # xs) = length (filter (\<lambda>y. y < x) xs) + inversions xs"

definition odd_parity :: "state \<Rightarrow> bool" where
  "odd_parity s = odd (inversions (filter (\<lambda>v. v \<noteq> 0) (concat s)))"

section \<open>Invariants of the search loops\<close>

text \<open>
  The invariant of the \<^verbatim>\<open>while\<close> loop of \<^verbatim>\<open>solve_bfs\<close>, for the start state \<open>init\<close>:
  every queue entry holds a configuration with a shortest path to it, the queue is ordered
  by path length and spans at most two lengths, and a visited configuration that has left
  the queue is not the goal and has all its successors visited.
\<close>

definition bfs_invariant :: "state \<Rightarrow> (state \<times> state list) list \<Rightarrow> string set \<Rightarrow> bool" where
  "bfs_invariant init queue visited =
     (is_config init \<and> state_to_string init \<in> visited \<and>
      (\<forall>e \<in> set queue. is_config (fst e) \<and> leads_to init (snd e) (fst e) \<and>
          state_to_string (fst e) \<in> visited \<and>
          (\<forall>p. leads_to init p (fst e) \<longrightarrow> length (snd e) \<le> length p)) \<and>
      sorted (map (\<lambda>e. length (snd e)) queue) \<and>
      (\<forall>e \<in> set queue. length (snd e) \<le> Suc (length (snd (hd queue)))) \<and>
      (\<forall>s. is_config s \<and> state_to_string s \<in> visited \<and> s \<notin> fst ` set queue \<longrightarrow>
          s \<noteq> goal_state \<and> (\<forall>t. one_blank_swap s t \<longrightarrow> state_to_string t \<in> visited)))"

text \<open>The number of configurations not yet visited, and the measure that each pass lowers.\<close>

definition unvisited :: "string set \<Rightarrow> state set" where
  "unvisited visited = {s. is_config s \<and> state_to_string s \<notin> visited}"

definition bfs_measure :: "(state \<times> state list) list \<Rightarrow> string set \<Rightarrow> nat" where
  "bfs_measure queue visited = 2 * card (unvisited visited) + length queue"

text \<open>
  The invariant of the \<^verbatim>\<open>for\<close> loop of \<^verbatim>\<open>solve_simulated_annealing\<close>: the current and
  the best state are configurations, the temperature is at least the restart threshold,
  and the trace begins with the start state \<open>init\<close> and has at most \<open>n + 1\<close> entries.
\<close>

definition sa_invariant :: "state \<Rightarrow> nat \<Rightarrow> sa_vars \<Rightarrow> bool" where
  "sa_invariant init n v =
     (is_config (current_state v) \<and> is_config (best_state v) \<and> 0.01 \<le> temperature v \<and>
      path v \<noteq> [] \<and> hd (path v) = init \<and> length (path v) \<le> Suc n)"

text \<open>
  One side of \<^verbatim>\<open>solve_bidirectional\<close>, searching from \<open>origin\<close>: every queued state and
  every configuration whose string is a key of the visited dictionary can be reached from
  \<open>origin\<close> by legal moves.
\<close>

definition search_side :: "state \<Rightarrow> (state \<times> state list) list \<Rightarrow> string set \<Rightarrow> bool" where
  "search_side origin queue keys =
     (is_config origin \<and>
      (\<forall>e \<in> set queue. is_config (fst e) \<and> reachable origin (fst e)) \<and>
      (\<forall>s. is_config s \<and> state_to_string s \<in> keys \<longrightarrow> reachable origin s))"

section \<open>Facts about the state model\<close>

lemma shape3: "map length s = [3, 3, 3] \<Longrightarrow> \<exists>a b c d e f g h i. s = [[a, b, c], [d, e, f], [g, h, i]]"
proof -
  assume h: "map length s = [3, 3, 3]"
  have row: "\<And>r :: 'a list. length r = 3 \<Longrightarrow> \<exists>a b c. r = [a, b, c]"
    by (metis (no_types) length_0_conv length_Suc_conv numeral_3_eq_3)
  from h obtain r1 r2 r3 where s: "s = [r1, r2, r3]" and l: "length r1 = 3" "length r2 = 3" "length r3 = 3"
    by (auto simp: map_eq_Cons_conv)
  from row[OF l(1)] row[OF l(2)] row[OF l(3)] s show ?thesis by blast
qed

lemma get_blank_position_grid: "get_blank_position [[a, b, c], [d, e, f], [g, h, i]] =
  Inr (if a = 0 then Some (0,0) else if b = 0 then Some (0,1) else if c = 0 then Some (0,2)
   else if d = 0 then Some (1,0) else if e = 0 then Some (1,1) else if f = 0 then Some (1,2)
   else if g = 0 then Some (2,0) else if h = 0 then Some (2,1) else if i = 0 then Some (2,2) else None)"
  by (simp add: get_blank_position_def cell_def)

lemma get_neighbors_grid:
  "get_neighbors [[a, b, c], [d, e, f], [g, h, i]] =
    (if a = 0 then Inr [[[d, b, c], [a, e, f], [g, h, i]],
        [[b, a, c], [d, e, f], [g, h, i]]]
     else if b = 0 then Inr [[[a, e, c], [d, b, f], [g, h, i]],
        [[b, a, c], [d, e, f], [g, h, i]],
        [[a, c, b], [d, e, f], [g, h, i]]]
     else if c = 0 then Inr [[[a, b, f], [d, e, c], [g, h, i]],
        [[a, c, b], [d, e, f], [g, h, i]]]
     else if d = 0 then Inr [[[d, b, c], [a, e, f], [g, h, i]],
        [[a, b, c], [g, e, f], [d, h, i]],
        [[a, b, c], [e, d, f], [g, h, i]]]
     else if e = 0 then Inr [[[a, e, c], [d, b, f], [g, h, i]],
        [[a, b, c], [d, h, f], [g, e, i]],
        [[a, b, c], [e, d, f], [g, h, i]],
        [[a, b, c], [d, f, e], [g, h, i]]]
     else if f = 0 then Inr [[[a, b, f], [d, e, c], [g, h, i]],
        [[a, b, c], [d, e, i], [g, h, f]],
        [[a, b, c], [d, f, e], [g, h, i]]]
     else if g = 0 then Inr [[[a, b, c], [g, e, f], [d, h, i]],
        [[a, b, c], [d, e, f], [h, g, i]]]
     else if h = 0 then Inr [[[a, b, c], [d, h, f], [g, e, i]],
        [[a, b, c], [d, e, f], [h, g, i]],
        [[a, b, c], [d, e, f], [g, i, h]]]
     else if i = 0 then Inr [[[a, b, c], [d, e, i], [g, h, f]],
        [[a, b, c], [d, e, f], [g, i, h]]]
     else Inl TypeError)"
  by (simp add: get_neighbors_def get_blank_position_grid swap_blank_def cell_def)

lemma is_config_mset:
  "is_config s \<longleftrightarrow> map length s = [3, 3, 3] \<and> mset (concat s) = mset [0, 1, 2, 3, 4, 5, 6, 7, 8]"
proof -
  have "sort (concat s) = [0, 1, 2, 3, 4, 5, 6, 7, 8] \<longleftrightarrow> mset (concat s) = mset [0, 1, 2, 3, 4, 5, 6, 7, 8]"
  proof
    assume "sort (concat s) = [0, 1, 2, 3, 4, 5, 6, 7, 8]"
    then have "mset (sort (concat s)) = mset [0, 1, 2, 3, 4, 5, 6, 7, 8]" by simp
    then show "mset (concat s) = mset [0, 1, 2, 3, 4, 5, 6, 7, 8]" by simp
  next
    assume "mset (concat s) = mset [0, 1, 2, 3, 4, 5, 6, 7, 8]"
    then have "mset [0, 1, 2, 3, 4, 5, 6, 7, 8] = mset (concat s)" by simp
    then show "sort (concat s) = [0, 1, 2, 3, 4, 5, 6, 7, 8]"
      by (rule properties_for_sort) simp
  qed
  then show ?thesis by (simp add: is_config_def)
qed

lemma config_gridE:
  assumes "is_config s"
  obtains a b c d e f g h i where "s = [[a, b, c], [d, e, f], [g, h, i]]"
    and "mset [a, b, c, d, e, f, g, h, i] = mset [0, 1, 2, 3, 4, 5, 6, 7, 8]"
proof -
  from assms have sh: "map length s = [3, 3, 3]" and ms: "mset (concat s) = mset [0, 1, 2, 3, 4, 5, 6, 7, 8]"
    by (simp_all add: is_config_mset)
  from shape3[OF sh] obtain a b c d e f g h i where s: "s = [[a, b, c], [d, e, f], [g, h, i]]" by blast
  with ms have "mset [a, b, c, d, e, f, g, h, i] = mset [0, 1, 2, 3, 4, 5, 6, 7, 8]" by simp
  with s that show ?thesis by blast
qed

lemma perm9_facts:
  assumes "mset [a, b, c, d, e, f, g, h, i] = mset [0, 1, 2, 3, 4, 5, 6, 7, 8 :: int]"
  shows "distinct [a, b, c, d, e, f, g, h, i]"
    and "set [a, b, c, d, e, f, g, h, i] = {0, 1, 2, 3, 4, 5, 6, 7, 8}"
proof -
  have "distinct [0, 1, 2, 3, 4, 5, 6, 7, 8 :: int]" by simp
  with assms show "distinct [a, b, c, d, e, f, g, h, i]"
    using mset_eq_imp_distinct_iff by blast
  from assms have "set [a, b, c, d, e, f, g, h, i] = set [0, 1, 2, 3, 4, 5, 6, 7, 8 :: int]"
    by (rule mset_eq_setD)
  then show "set [a, b, c, d, e, f, g, h, i] = {0, 1, 2, 3, 4, 5, 6, 7, 8}" by simp
qed

lemma config_cases [consumes 1, case_names b00 b01 b02 b10 b11 b12 b20 b21 b22]:
  assumes "is_config s"
  obtains (b00) b c d e f g h i where
      "s = [[0, b, c], [d, e, f], [g, h, i]]"
      "mset [0, b, c, d, e, f, g, h, i] = mset [0, 1, 2, 3, 4, 5, 6, 7, 8]"
      "distinct [0, b, c, d, e, f, g, h, i]"
      "get_neighbors s = Inr [[[d, b, c], [0, e, f], [g, h, i]],
         [[b, 0, c], [d, e, f], [g, h, i]]]"
  | (b01) a c d e f g h i where
      "s = [[a, 0, c], [d, e, f], [g, h, i]]"
      "mset [a, 0, c, d, e, f, g, h, i] = mset [0, 1, 2, 3, 4, 5, 6, 7, 8]"
      "distinct [a, 0, c, d, e, f, g, h, i]"
      "get_neighbors s = Inr [[[a, e, c], [d, 0, f], [g, h, i]],
         [[0, a, c], [d, e, f], [g, h, i]],
         [[a, c, 0], [d, e, f], [g, h, i]]]"
  | (b02) a b d e f g h i where
      "s = [[a, b, 0], [d, e, f], [g, h, i]]"
      "mset [a, b, 0, d, e, f, g, h, i] = mset [0, 1, 2, 3, 4, 5, 6, 7, 8]"
      "distinct [a, b, 0, d, e, f, g, h, i]"
      "get_neighbors s = Inr [[[a, b, f], [d, e, 0], [g, h, i]],
         [[a, 0, b], [d, e, f], [g, h, i]]]"
  | (b10) a b c e f g h i where
      "s = [[a, b, c], [0, e, f], [g, h, i]]"
      "mset [a, b, c, 0, e, f, g, h, i] = mset [0, 1, 2, 3, 4, 5, 6, 7, 8]"
      "distinct [a, b, c, 0, e, f, g, h, i]"
      "get_neighbors s = Inr [[[0, b, c], [a, e, f], [g, h, i]],
         [[a, b, c], [g, e, f], [0, h, i]],
         [[a, b, c], [e, 0, f], [g, h, i]]]"
  | (b11) a b c d f g h i where
      "s = [[a, b, c], [d, 0, f], [g, h, i]]"
      "mset [a, b, c, d, 0, f, g, h, i] = mset [0, 1, 2, 3, 4, 5, 6, 7, 8]"
      "distinct [a, b, c, d, 0, f, g, h, i]"
      "get_neighbors s = Inr [[[a, 0, c], [d, b, f], [g, h, i]],
         [[a, b, c], [d, h, f], [g, 0, i]],
         [[a, b, c], [0, d, f], [g, h, i]],
         [[a, b, c], [d, f, 0], [g, h, i]]]"
  | (b12) a b c d e g h i where
      "s = [[a, b, c], [d, e, 0], [g, h, i]]"
      "mset [a, b, c, d, e, 0, g, h, i] = mset [0, 1, 2, 3, 4, 5, 6, 7, 8]"
      "distinct [a, b, c, d, e, 0, g, h, i]"
      "get_neighbors s = Inr [[[a, b, 0], [d, e, c], [g, h, i]],
         [[a, b, c], [d, e, i], [g, h, 0]],
         [[a, b, c], [d, 0, e], [g, h, i]]]"
  | (b20) a b c d e f h i where
      "s = [[a, b, c], [d, e, f], [0, h, i]]"
      "mset [a, b, c, d, e, f, 0, h, i] = mset [0, 1, 2, 3, 4, 5, 6, 7, 8]"
      "distinct [a, b, c, d, e, f, 0, h, i]"
      "get_neighbors s = Inr [[[a, b, c], [0, e, f], [d, h, i]],
         [[a, b, c], [d, e, f], [h, 0, i]]]"
  | (b21) a b c d e f g i where
      "s = [[a, b, c], [d, e, f], [g, 0, i]]"
      "mset [a, b, c, d, e, f, g, 0, i] = mset [0, 1, 2, 3, 4, 5, 6, 7, 8]"
      "distinct [a, b, c, d, e, f, g, 0, i]"
      "get_neighbors s = Inr [[[a, b, c], [d, 0, f], [g, e, i]],
         [[a, b, c], [d, e, f], [0, g, i]],
         [[a, b, c], [d, e, f], [g, i, 0]]]"
  | (b22) a b c d e f g h where
      "s = [[a, b, c], [d, e, f], [g, h, 0]]"
      "mset [a, b, c, d, e, f, g, h, 0] = mset [0, 1, 2, 3, 4, 5, 6, 7, 8]"
      "distinct [a, b, c, d, e, f, g, h, 0]"
      "get_neighbors s = Inr [[[a, b, c], [d, e, 0], [g, h, f]],
         [[a, b, c], [d, e, f], [g, 0, h]]]"
proof -
  from assms obtain a b c d e f g h i where s: "s = [[a, b, c], [d, e, f], [g, h, i]]"
    and ms: "mset [a, b, c, d, e, f, g, h, i] = mset [0, 1, 2, 3, 4, 5, 6, 7, 8]"
    by (rule config_gridE)
  from perm9_facts(2)[OF ms] have "0 \<in> set [a, b, c, d, e, f, g, h, i]" by simp
  then consider "a = 0" | "b = 0" | "c = 0" | "d = 0" | "e = 0" | "f = 0" | "g = 0" | "h = 0" | "i = 0"
    by auto
  then show thesis
  proof cases
    case 1
    with perm9_facts(1)[OF ms] have nz: "b \<noteq> 0" "c \<noteq> 0" "d \<noteq> 0" "e \<noteq> 0" "f \<noteq> 0" "g \<noteq> 0" "h \<noteq> 0" "i \<noteq> 0"
      by auto
    show thesis
      by (rule that(1)[of b c d e f g h i]) (use 1 nz s ms perm9_facts(1)[OF ms] in \<open>simp_all add: get_neighbors_grid\<close>)
  next
    case 2
    with perm9_facts(1)[OF ms] have nz: "a \<noteq> 0" "c \<noteq> 0" "d \<noteq> 0" "e \<noteq> 0" "f \<noteq> 0" "g \<noteq> 0" "h \<noteq> 0" "i \<noteq> 0"
      by auto
    show thesis
      by (rule that(2)[of a c d e f g h i]) (use 2 nz s ms perm9_facts(1)[OF ms] in \<open>simp_all add: get_neighbors_grid\<close>)
  next
    case 3
    with perm9_facts(1)[OF ms] have nz: "a \<noteq> 0" "b \<noteq> 0" "d \<noteq> 0" "e \<noteq> 0" "f \<noteq> 0" "g \<noteq> 0" "h \<noteq> 0" "i \<noteq> 0"
      by auto
    show thesis
      by (rule that(3)[of a b d e f g h i]) (use 3 nz s ms perm9_facts(1)[OF ms] in \<open>simp_all add: get_neighbors_grid\<close>)
  next
    case 4
    with perm9_facts(1)[OF ms] have nz: "a \<noteq> 0" "b \<noteq> 0" "c \<noteq> 0" "e \<noteq> 0" "f \<noteq> 0" "g \<noteq> 0" "h \<noteq> 0" "i \<noteq> 0"
      by auto
    show thesis
      by (rule that(4)[of a b c e f g h i]) (use 4 nz s ms perm9_facts(1)[OF ms] in \<open>simp_all add: get_neighbors_grid\<close>)
  next
    case 5
    with perm9_facts(1)[OF ms] have nz: "a \<noteq> 0" "b \<noteq> 0" "c \<noteq> 0" "d \<noteq> 0" "f \<noteq> 0" "g \<noteq> 0" "h \<noteq> 0" "i \<noteq> 0"
      by auto
    show thesis
      by (rule that(5)[of a b c d f g h i]) (use 5 nz s ms perm9_facts(1)[OF ms] in \<open>simp_all add: get_neighbors_grid\<close>)
  next
    case 6
    with perm9_facts(1)[OF ms] have nz: "a \<noteq> 0" "b \<noteq> 0" "c \<noteq> 0" "d \<noteq> 0" "e \<noteq> 0" "g \<noteq> 0" "h \<noteq> 0" "i \<noteq> 0"
      by auto
    show thesis
      by (rule that(6)[of a b c d e g h i]) (use 6 nz s ms perm9_facts(1)[OF ms] in \<open>simp_all add: get_neighbors_grid\<close>)
  next
    case 7
    with perm9_facts(1)[OF ms] have nz: "a \<noteq> 0" "b \<noteq> 0" "c \<noteq> 0" "d \<noteq> 0" "e \<noteq> 0" "f \<noteq> 0" "h \<noteq> 0" "i \<noteq> 0"
      by auto
    show thesis
      by (rule that(7)[of a b c d e f h i]) (use 7 nz s ms perm9_facts(1)[OF ms] in \<open>simp_all add: get_neighbors_grid\<close>)
  next
    case 8
    with perm9_facts(1)[OF ms] have nz: "a \<noteq> 0" "b \<noteq> 0" "c \<noteq> 0" "d \<noteq> 0" "e \<noteq> 0" "f \<noteq> 0" "g \<noteq> 0" "i \<noteq> 0"
      by auto
    show thesis
      by (rule that(8)[of a b c d e f g i]) (use 8 nz s ms perm9_facts(1)[OF ms] in \<open>simp_all add: get_neighbors_grid\<close>)
  next
    case 9
    with perm9_facts(1)[OF ms] have nz: "a \<noteq> 0" "b \<noteq> 0" "c \<noteq> 0" "d \<noteq> 0" "e \<noteq> 0" "f \<noteq> 0" "g \<noteq> 0" "h \<noteq> 0"
      by auto
    show thesis
      by (rule that(9)[of a b c d e f g h]) (use 9 nz s ms perm9_facts(1)[OF ms] in \<open>simp_all add: get_neighbors_grid\<close>)
  qed
qed

lemma config_neighbors:
  assumes "is_config s"
  shows "\<exists>ns. get_neighbors s = Inr ns \<and> (\<forall>n \<in> set ns. is_config n) \<and> ns \<noteq> []"
  using assms
  by (cases rule: config_cases) (simp_all add: is_config_mset add_mset_commute)

lemma one_blank_swapI:
  assumes "map length t = [3, 3, 3]" "b \<in> set grid_positions" "m \<in> set grid_positions"
    "cell_at s b = 0" "adjacent b m" "cell_at t b = cell_at s m" "cell_at t m = 0"
    "\<forall>p \<in> set grid_positions. p = b \<or> p = m \<or> cell_at t p = cell_at s p"
  shows "one_blank_swap s t"
  using assms unfolding one_blank_swap_def list_ex_iff list_all_iff by blast

lemma explicit_swap_00_10:
  "one_blank_swap [[0, b, c], [d, e, f], [g, h, i]]
     [[d, b, c], [0, e, f], [g, h, i]]"
  by (rule one_blank_swapI [where b = "(0, 0)" and m = "(1, 0)"])
     (simp_all add: grid_positions_def cell_at_def adjacent_def)

lemma explicit_swap_00_01:
  "one_blank_swap [[0, b, c], [d, e, f], [g, h, i]]
     [[b, 0, c], [d, e, f], [g, h, i]]"
  by (rule one_blank_swapI [where b = "(0, 0)" and m = "(0, 1)"])
     (simp_all add: grid_positions_def cell_at_def adjacent_def)

lemma explicit_swap_01_11:
  "one_blank_swap [[a, 0, c], [d, e, f], [g, h, i]]
     [[a, e, c], [d, 0, f], [g, h, i]]"
  by (rule one_blank_swapI [where b = "(0, 1)" and m = "(1, 1)"])
     (simp_all add: grid_positions_def cell_at_def adjacent_def)

lemma explicit_swap_01_00:
  "one_blank_swap [[a, 0, c], [d, e, f], [g, h, i]]
     [[0, a, c], [d, e, f], [g, h, i]]"
  by (rule one_blank_swapI [where b = "(0, 1)" and m = "(0, 0)"])
     (simp_all add: grid_positions_def cell_at_def adjacent_def)

lemma explicit_swap_01_02:
  "one_blank_swap [[a, 0, c], [d, e, f], [g, h, i]]
     [[a, c, 0], [d, e, f], [g, h, i]]"
  by (rule one_blank_swapI [where b = "(0, 1)" and m = "(0, 2)"])
     (simp_all add: grid_positions_def cell_at_def adjacent_def)

lemma explicit_swap_02_12:
  "one_blank_swap [[a, b, 0], [d, e, f], [g, h, i]]
     [[a, b, f], [d, e, 0], [g, h, i]]"
  by (rule one_blank_swapI [where b = "(0, 2)" and m = "(1, 2)"])
     (simp_all add: grid_positions_def cell_at_def adjacent_def)

lemma explicit_swap_02_01:
  "one_blank_swap [[a, b, 0], [d, e, f], [g, h, i]]
     [[a, 0, b], [d, e, f], [g, h, i]]"
  by (rule one_blank_swapI [where b = "(0, 2)" and m = "(0, 1)"])
     (simp_all add: grid_positions_def cell_at_def adjacent_def)

lemma explicit_swap_10_00:
  "one_blank_swap [[a, b, c], [0, e, f], [g, h, i]]
     [[0, b, c], [a, e, f], [g, h, i]]"
  by (rule one_blank_swapI [where b = "(1, 0)" and m = "(0, 0)"])
     (simp_all add: grid_positions_def cell_at_def adjacent_def)

lemma explicit_swap_10_20:
  "one_blank_swap [[a, b, c], [0, e, f], [g, h, i]]
     [[a, b, c], [g, e, f], [0, h, i]]"
  by (rule one_blank_swapI [where b = "(1, 0)" and m = "(2, 0)"])
     (simp_all add: grid_positions_def cell_at_def adjacent_def)

lemma explicit_swap_10_11:
  "one_blank_swap [[a, b, c], [0, e, f], [g, h, i]]
     [[a, b, c], [e, 0, f], [g, h, i]]"
  by (rule one_blank_swapI [where b = "(1, 0)" and m = "(1, 1)"])
     (simp_all add: grid_positions_def cell_at_def adjacent_def)

lemma explicit_swap_11_01:
  "one_blank_swap [[a, b, c], [d, 0, f], [g, h, i]]
     [[a, 0, c], [d, b, f], [g, h, i]]"
  by (rule one_blank_swapI [where b = "(1, 1)" and m = "(0, 1)"])
     (simp_all add: grid_positions_def cell_at_def adjacent_def)

lemma explicit_swap_11_21:
  "one_blank_swap [[a, b, c], [d, 0, f], [g, h, i]]
     [[a, b, c], [d, h, f], [g, 0, i]]"
  by (rule one_blank_swapI [where b = "(1, 1)" and m = "(2, 1)"])
     (simp_all add: grid_positions_def cell_at_def adjacent_def)

lemma explicit_swap_11_10:
  "one_blank_swap [[a, b, c], [d, 0, f], [g, h, i]]
     [[a, b, c], [0, d, f], [g, h, i]]"
  by (rule one_blank_swapI [where b = "(1, 1)" and m = "(1, 0)"])
     (simp_all add: grid_positions_def cell_at_def adjacent_def)

lemma explicit_swap_11_12:
  "one_blank_swap [[a, b, c], [d, 0, f], [g, h, i]]
     [[a, b, c], [d, f, 0], [g, h, i]]"
  by (rule one_blank_swapI [where b = "(1, 1)" and m = "(1, 2)"])
     (simp_all add: grid_positions_def cell_at_def adjacent_def)

lemma explicit_swap_12_02:
  "one_blank_swap [[a, b, c], [d, e, 0], [g, h, i]]
     [[a, b, 0], [d, e, c], [g, h, i]]"
  by (rule one_blank_swapI [where b = "(1, 2)" and m = "(0, 2)"])
     (simp_all add: grid_positions_def cell_at_def adjacent_def)

lemma explicit_swap_12_22:
  "one_blank_swap [[a, b, c], [d, e, 0], [g, h, i]]
     [[a, b, c], [d, e, i], [g, h, 0]]"
  by (rule one_blank_swapI [where b = "(1, 2)" and m = "(2, 2)"])
     (simp_all add: grid_positions_def cell_at_def adjacent_def)

lemma explicit_swap_12_11:
  "one_blank_swap [[a, b, c], [d, e, 0], [g, h, i]]
     [[a, b, c], [d, 0, e], [g, h, i]]"
  by (rule one_blank_swapI [where b = "(1, 2)" and m = "(1, 1)"])
     (simp_all add: grid_positions_def cell_at_def adjacent_def)

lemma explicit_swap_20_10:
  "one_blank_swap [[a, b, c], [d, e, f], [0, h, i]]
     [[a, b, c], [0, e, f], [d, h, i]]"
  by (rule one_blank_swapI [where b = "(2, 0)" and m = "(1, 0)"])
     (simp_all add: grid_positions_def cell_at_def adjacent_def)

lemma explicit_swap_20_21:
  "one_blank_swap [[a, b, c], [d, e, f], [0, h, i]]
     [[a, b, c], [d, e, f], [h, 0, i]]"
  by (rule one_blank_swapI [where b = "(2, 0)" and m = "(2, 1)"])
     (simp_all add: grid_positions_def cell_at_def adjacent_def)

lemma explicit_swap_21_11:
  "one_blank_swap [[a, b, c], [d, e, f], [g, 0, i]]
     [[a, b, c], [d, 0, f], [g, e, i]]"
  by (rule one_blank_swapI [where b = "(2, 1)" and m = "(1, 1)"])
     (simp_all add: grid_positions_def cell_at_def adjacent_def)

lemma explicit_swap_21_20:
  "one_blank_swap [[a, b, c], [d, e, f], [g, 0, i]]
     [[a, b, c], [d, e, f], [0, g, i]]"
  by (rule one_blank_swapI [where b = "(2, 1)" and m = "(2, 0)"])
     (simp_all add: grid_positions_def cell_at_def adjacent_def)

lemma explicit_swap_21_22:
  "one_blank_swap [[a, b, c], [d, e, f], [g, 0, i]]
     [[a, b, c], [d, e, f], [g, i, 0]]"
  by (rule one_blank_swapI [where b = "(2, 1)" and m = "(2, 2)"])
     (simp_all add: grid_positions_def cell_at_def adjacent_def)

lemma explicit_swap_22_12:
  "one_blank_swap [[a, b, c], [d, e, f], [g, h, 0]]
     [[a, b, c], [d, e, 0], [g, h, f]]"
  by (rule one_blank_swapI [where b = "(2, 2)" and m = "(1, 2)"])
     (simp_all add: grid_positions_def cell_at_def adjacent_def)

lemma explicit_swap_22_21:
  "one_blank_swap [[a, b, c], [d, e, f], [g, h, 0]]
     [[a, b, c], [d, e, f], [g, 0, h]]"
  by (rule one_blank_swapI [where b = "(2, 2)" and m = "(2, 1)"])
     (simp_all add: grid_positions_def cell_at_def adjacent_def)

lemmas explicit_swaps =
  explicit_swap_00_10
  explicit_swap_00_01
  explicit_swap_01_11
  explicit_swap_01_00
  explicit_swap_01_02
  explicit_swap_02_12
  explicit_swap_02_01
  explicit_swap_10_00
  explicit_swap_10_20
  explicit_swap_10_11
  explicit_swap_11_01
  explicit_swap_11_21
  explicit_swap_11_10
  explicit_swap_11_12
  explicit_swap_12_02
  explicit_swap_12_22
  explicit_swap_12_11
  explicit_swap_20_10
  explicit_swap_20_21
  explicit_swap_21_11
  explicit_swap_21_20
  explicit_swap_21_22
  explicit_swap_22_12
  explicit_swap_22_21

lemma neighbors_are_swaps:
  assumes "is_config s" "get_neighbors s = Inr ns" "n \<in> set ns"
  shows "one_blank_swap s n"
  using assms(1)
proof (cases rule: config_cases)
  case b00
  show ?thesis using assms(2,3) b00(1,4) by (auto simp: explicit_swaps)
next
  case b01
  show ?thesis using assms(2,3) b01(1,4) by (auto simp: explicit_swaps)
next
  case b02
  show ?thesis using assms(2,3) b02(1,4) by (auto simp: explicit_swaps)
next
  case b10
  show ?thesis using assms(2,3) b10(1,4) by (auto simp: explicit_swaps)
next
  case b11
  show ?thesis using assms(2,3) b11(1,4) by (auto simp: explicit_swaps)
next
  case b12
  show ?thesis using assms(2,3) b12(1,4) by (auto simp: explicit_swaps)
next
  case b20
  show ?thesis using assms(2,3) b20(1,4) by (auto simp: explicit_swaps)
next
  case b21
  show ?thesis using assms(2,3) b21(1,4) by (auto simp: explicit_swaps)
next
  case b22
  show ?thesis using assms(2,3) b22(1,4) by (auto simp: explicit_swaps)
qed

lemma swaps_are_neighbors:
  assumes "is_config s" "one_blank_swap s t"
  shows "\<exists>ns. get_neighbors s = Inr ns \<and> t \<in> set ns"
proof -
  from assms(2) have "map length t = [3, 3, 3]" by (simp add: one_blank_swap_def)
  from shape3 [OF this] obtain t1 t2 t3 t4 t5 t6 t7 t8 t9
    where t: "t = [[t1, t2, t3], [t4, t5, t6], [t7, t8, t9]]"
    by blast
  show ?thesis using assms(1)
  proof (cases rule: config_cases)
    case b00
    show ?thesis using assms(2) b00(1,3) unfolding b00(4) t by (auto simp: one_blank_swap_def grid_positions_def cell_at_def adjacent_def)
  next
    case b01
    show ?thesis using assms(2) b01(1,3) unfolding b01(4) t by (auto simp: one_blank_swap_def grid_positions_def cell_at_def adjacent_def)
  next
    case b02
    show ?thesis using assms(2) b02(1,3) unfolding b02(4) t by (auto simp: one_blank_swap_def grid_positions_def cell_at_def adjacent_def)
  next
    case b10
    show ?thesis using assms(2) b10(1,3) unfolding b10(4) t by (auto simp: one_blank_swap_def grid_positions_def cell_at_def adjacent_def)
  next
    case b11
    show ?thesis using assms(2) b11(1,3) unfolding b11(4) t by (auto simp: one_blank_swap_def grid_positions_def cell_at_def adjacent_def)
  next
    case b12
    show ?thesis using assms(2) b12(1,3) unfolding b12(4) t by (auto simp: one_blank_swap_def grid_positions_def cell_at_def adjacent_def)
  next
    case b20
    show ?thesis using assms(2) b20(1,3) unfolding b20(4) t by (auto simp: one_blank_swap_def grid_positions_def cell_at_def adjacent_def)
  next
    case b21
    show ?thesis using assms(2) b21(1,3) unfolding b21(4) t by (auto simp: one_blank_swap_def grid_positions_def cell_at_def adjacent_def)
  next
    case b22
    show ?thesis using assms(2) b22(1,3) unfolding b22(4) t by (auto simp: one_blank_swap_def grid_positions_def cell_at_def adjacent_def)
  qed
qed

lemma one_blank_swap_iff:
  assumes "is_config s"
  shows "one_blank_swap s t \<longleftrightarrow> (\<exists>ns. get_neighbors s = Inr ns \<and> t \<in> set ns)"
  using assms neighbors_are_swaps swaps_are_neighbors by blast

lemma swap_config:
  assumes "is_config s" "one_blank_swap s t"
  shows "is_config t"
  using assms config_neighbors [OF assms(1)] by (auto simp: one_blank_swap_iff)

lemma swap_sym:
  assumes "is_config s" "one_blank_swap s t"
  shows "one_blank_swap t s"
proof -
  from assms obtain ns where ns: "get_neighbors s = Inr ns" "t \<in> set ns"
    by (auto simp: one_blank_swap_iff)
  show ?thesis using assms(1)
  proof (cases rule: config_cases)
    case b00
    show ?thesis using ns b00(1,4) by (auto simp: explicit_swaps)
  next
    case b01
    show ?thesis using ns b01(1,4) by (auto simp: explicit_swaps)
  next
    case b02
    show ?thesis using ns b02(1,4) by (auto simp: explicit_swaps)
  next
    case b10
    show ?thesis using ns b10(1,4) by (auto simp: explicit_swaps)
  next
    case b11
    show ?thesis using ns b11(1,4) by (auto simp: explicit_swaps)
  next
    case b12
    show ?thesis using ns b12(1,4) by (auto simp: explicit_swaps)
  next
    case b20
    show ?thesis using ns b20(1,4) by (auto simp: explicit_swaps)
  next
    case b21
    show ?thesis using ns b21(1,4) by (auto simp: explicit_swaps)
  next
    case b22
    show ?thesis using ns b22(1,4) by (auto simp: explicit_swaps)
  qed
qed

lemma manhattan_row_step:
  assumes "cell state i j = Inr v"
  shows "manhattan_row state i (j # js) distance =
           manhattan_row state i js (distance + tile_distance (int i) (int j) v)"
  using assms by (simp add: tile_distance_def Let_def)

lemma manhattan_row_three:
  assumes "cell state i 0 = Inr x" "cell state i 1 = Inr y" "cell state i 2 = Inr z"
  shows "manhattan_row state i [0, 1, 2] distance =
           Inr (distance + tile_distance (int i) 0 x + tile_distance (int i) 1 y +
                tile_distance (int i) 2 z)"
  unfolding manhattan_row_step [OF assms(1)] manhattan_row_step [OF assms(2)]
    manhattan_row_step [OF assms(3)] manhattan_row.simps(1)
  by simp

lemma manhattan_distance_grid:
  "manhattan_distance [[a, b, c], [d, e, f], [g, h, i]] =
     Inr (tile_distance 0 0 a + tile_distance 0 1 b + tile_distance 0 2 c +
          tile_distance 1 0 d + tile_distance 1 1 e + tile_distance 1 2 f +
          tile_distance 2 0 g + tile_distance 2 1 h + tile_distance 2 2 i)"
proof -
  let ?s = "[[a, b, c], [d, e, f], [g, h, i]]"
  have r0: "manhattan_row ?s 0 [0, 1, 2] k =
      Inr (k + tile_distance 0 0 a + tile_distance 0 1 b + tile_distance 0 2 c)" for k
    using manhattan_row_three [of ?s 0 a b c k] by (simp add: cell_def)
  have r1: "manhattan_row ?s 1 [0, 1, 2] k =
      Inr (k + tile_distance 1 0 d + tile_distance 1 1 e + tile_distance 1 2 f)" for k
    using manhattan_row_three [of ?s 1 d e f k] by (simp add: cell_def)
  have r2: "manhattan_row ?s 2 [0, 1, 2] k =
      Inr (k + tile_distance 2 0 g + tile_distance 2 1 h + tile_distance 2 2 i)" for k
    using manhattan_row_three [of ?s 2 g h i k] by (simp add: cell_def)
  show ?thesis
    unfolding manhattan_distance_def manhattan_rows.simps r0 r1 r2
    by simp
qed

lemma tile_distance_nonneg: "0 \<le> tile_distance i j v"
  by (simp add: tile_distance_def)

lemma digit_cases:
  assumes "0 \<le> v" "v \<le> (8::int)"
  shows "v = 0 \<or> v = 1 \<or> v = 2 \<or> v = 3 \<or> v = 4 \<or> v = 5 \<or> v = 6 \<or> v = 7 \<or> v = 8"
  using assms by arith

lemma tile_distance_zero_iff:
  assumes "0 \<le> v" "v \<le> 8" "i = 0 \<or> i = 1 \<or> i = 2" "j = 0 \<or> j = 1 \<or> j = 2"
  shows "tile_distance i j v = 0 \<longleftrightarrow> v = 0 \<or> v = 3 * i + j + 1"
proof -
  have "\<forall>i \<in> {0, 1, 2}. \<forall>j \<in> {0, 1, 2}. tile_distance i j k = 0 \<longleftrightarrow> k = 0 \<or> k = 3 * i + j + 1"
    if "k = 0 \<or> k = 1 \<or> k = 2 \<or> k = 3 \<or> k = 4 \<or> k = 5 \<or> k = 6 \<or> k = 7 \<or> k = 8" for k
    using that by (elim disjE) (simp_all add: tile_distance_def)
  from this [OF digit_cases [OF assms(1,2)]] assms(3,4) show ?thesis by blast
qed


lemma sum9_zero:
  fixes x1 :: int
  assumes "0 \<le> x1" "0 \<le> x2" "0 \<le> x3" "0 \<le> x4" "0 \<le> x5" "0 \<le> x6" "0 \<le> x7" "0 \<le> x8" "0 \<le> x9"
  shows "x1 + x2 + x3 + x4 + x5 + x6 + x7 + x8 + x9 = 0 \<longleftrightarrow>
         x1 = 0 \<and> x2 = 0 \<and> x3 = 0 \<and> x4 = 0 \<and> x5 = 0 \<and> x6 = 0 \<and> x7 = 0 \<and> x8 = 0 \<and> x9 = 0"
  using assms by arith

lemma manhattan_goal: "manhattan_distance goal_state = Inr 0"
  by (simp add: goal_state_def manhattan_distance_grid tile_distance_def)

lemma goal_by_cells:
  assumes "distinct [a, b, c, d, e, f, g, h, i::int]"
  shows "(a = 0 \<or> a = 1) \<and> (b = 0 \<or> b = 2) \<and> (c = 0 \<or> c = 3) \<and>
          (d = 0 \<or> d = 4) \<and> (e = 0 \<or> e = 5) \<and> (f = 0 \<or> f = 6) \<and>
          (g = 0 \<or> g = 7) \<and> (h = 0 \<or> h = 8) \<and> i = 0 \<longleftrightarrow>
         [[a, b, c], [d, e, f], [g, h, i]] = goal_state"
  using assms by (auto simp: goal_state_def)

lemma manhattan_config:
  assumes "is_config s"
  shows "\<exists>d. manhattan_distance s = Inr d \<and> 0 \<le> d \<and> (d = 0 \<longleftrightarrow> s = goal_state)"
proof -
  from assms obtain a b c d e f g h i where s: "s = [[a, b, c], [d, e, f], [g, h, i]]"
    and ms: "mset [a, b, c, d, e, f, g, h, i] = mset [0, 1, 2, 3, 4, 5, 6, 7, 8]"
    by (rule config_gridE)
  note dist = perm9_facts(1) [OF ms]
  from perm9_facts(2) [OF ms] have "\<forall>v \<in> set [a, b, c, d, e, f, g, h, i]. 0 \<le> v \<and> v \<le> 8"
    by auto
  then have r: "0 \<le> a" "a \<le> 8" "0 \<le> b" "b \<le> 8" "0 \<le> c" "c \<le> 8" "0 \<le> d" "d \<le> 8"
    "0 \<le> e" "e \<le> 8" "0 \<le> f" "f \<le> 8" "0 \<le> g" "g \<le> 8" "0 \<le> h" "h \<le> 8" "0 \<le> i" "i \<le> 8"
    by simp_all
  let ?d = "tile_distance 0 0 a + tile_distance 0 1 b + tile_distance 0 2 c +
          tile_distance 1 0 d + tile_distance 1 1 e + tile_distance 1 2 f +
          tile_distance 2 0 g + tile_distance 2 1 h + tile_distance 2 2 i"
  have md: "manhattan_distance s = Inr ?d" by (simp add: s manhattan_distance_grid)
  have nn: "0 \<le> ?d" by (intro add_nonneg_nonneg tile_distance_nonneg)
  have z: "tile_distance 0 0 a = 0 \<longleftrightarrow> a = 0 \<or> a = 1"
    "tile_distance 0 1 b = 0 \<longleftrightarrow> b = 0 \<or> b = 2"
    "tile_distance 0 2 c = 0 \<longleftrightarrow> c = 0 \<or> c = 3"
    "tile_distance 1 0 d = 0 \<longleftrightarrow> d = 0 \<or> d = 4"
    "tile_distance 1 1 e = 0 \<longleftrightarrow> e = 0 \<or> e = 5"
    "tile_distance 1 2 f = 0 \<longleftrightarrow> f = 0 \<or> f = 6"
    "tile_distance 2 0 g = 0 \<longleftrightarrow> g = 0 \<or> g = 7"
    "tile_distance 2 1 h = 0 \<longleftrightarrow> h = 0 \<or> h = 8"
    "tile_distance 2 2 i = 0 \<longleftrightarrow> i = 0"
    using r by (simp_all add: tile_distance_zero_iff)
  have "?d = 0 \<longleftrightarrow> tile_distance 0 0 a = 0 \<and> tile_distance 0 1 b = 0 \<and> tile_distance 0 2 c = 0 \<and>
          tile_distance 1 0 d = 0 \<and> tile_distance 1 1 e = 0 \<and> tile_distance 1 2 f = 0 \<and>
          tile_distance 2 0 g = 0 \<and> tile_distance 2 1 h = 0 \<and> tile_distance 2 2 i = 0"
    by (rule sum9_zero) (rule tile_distance_nonneg)+
  also have "\<dots> \<longleftrightarrow> s = goal_state"
    unfolding z s by (rule goal_by_cells [OF dist])
  finally have "?d = 0 \<longleftrightarrow> s = goal_state" .
  with md nn show ?thesis by blast
qed

lemma digit_char_inj:
  assumes "d < 10" "d' < 10" "digit_char d = digit_char d'"
  shows "d = d'"
proof -
  from assms(3) have "(of_char (char_of (48 + d)) :: nat) = of_char (char_of (48 + d'))"
    by (simp add: digit_char_def)
  with assms(1,2) show ?thesis by simp
qed

lemma str_int_digit:
  assumes "0 \<le> v" "v \<le> 8"
  shows "str_int v = [digit_char (nat v)]"
  using assms by (simp add: str_int_def str_nat.simps)

lemma str_int_digit_inj:
  assumes "0 \<le> v" "v \<le> 8" "0 \<le> w" "w \<le> 8"
  shows "str_int v = str_int w \<longleftrightarrow> v = w"
proof
  assume "str_int v = str_int w"
  with assms have "digit_char (nat v) = digit_char (nat w)" by (simp add: str_int_digit)
  then have "nat v = nat w" using assms by (intro digit_char_inj) simp_all
  with assms show "v = w" by simp
qed simp

lemma digit_grid_string:
  assumes "is_digit_grid s"
  shows "\<exists>a b c d e f g h i. s = [[a, b, c], [d, e, f], [g, h, i]] \<and>
           list_all (\<lambda>v. 0 \<le> v \<and> v \<le> 8) [a, b, c, d, e, f, g, h, i] \<and>
           state_to_string s = concat (map str_int [a, b, c, d, e, f, g, h, i])"
proof -
  from assms have sh: "map length s = [3, 3, 3]" by (simp add: is_digit_grid_def)
  from shape3 [OF sh] obtain a b c d e f g h i where s: "s = [[a, b, c], [d, e, f], [g, h, i]]"
    by blast
  with assms show ?thesis by (simp add: is_digit_grid_def state_to_string_def)
qed

lemma state_to_string_inj:
  assumes "is_digit_grid s" "is_digit_grid t" "state_to_string s = state_to_string t"
  shows "s = t"
proof -
  from digit_grid_string [OF assms(1)] obtain a b c d e f g h i
    where s: "s = [[a, b, c], [d, e, f], [g, h, i]]"
      and rs: "list_all (\<lambda>v. 0 \<le> v \<and> v \<le> 8) [a, b, c, d, e, f, g, h, i]"
      and ks: "state_to_string s = concat (map str_int [a, b, c, d, e, f, g, h, i])"
    by blast
  from digit_grid_string [OF assms(2)] obtain a' b' c' d' e' f' g' h' i'
    where t: "t = [[a', b', c'], [d', e', f'], [g', h', i']]"
      and rt: "list_all (\<lambda>v. 0 \<le> v \<and> v \<le> 8) [a', b', c', d', e', f', g', h', i']"
      and kt: "state_to_string t = concat (map str_int [a', b', c', d', e', f', g', h', i'])"
    by blast
  from assms(3) ks kt rs rt
  have "[digit_char (nat a), digit_char (nat b), digit_char (nat c), digit_char (nat d),
         digit_char (nat e), digit_char (nat f), digit_char (nat g), digit_char (nat h),
         digit_char (nat i)] =
        [digit_char (nat a'), digit_char (nat b'), digit_char (nat c'), digit_char (nat d'),
         digit_char (nat e'), digit_char (nat f'), digit_char (nat g'), digit_char (nat h'),
         digit_char (nat i')]"
    by (simp add: str_int_digit)
  then have "str_int a = str_int a'" "str_int b = str_int b'" "str_int c = str_int c'"
    "str_int d = str_int d'" "str_int e = str_int e'" "str_int f = str_int f'"
    "str_int g = str_int g'" "str_int h = str_int h'" "str_int i = str_int i'"
    using rs rt by (simp_all add: str_int_digit)
  with rs rt show ?thesis unfolding s t by (simp add: str_int_digit_inj)
qed

lemma config_digit_grid: "is_config s \<Longrightarrow> is_digit_grid s"
proof -
  assume c: "is_config s"
  then obtain a b c d e f g h i where s: "s = [[a, b, c], [d, e, f], [g, h, i]]"
    and ms: "mset [a, b, c, d, e, f, g, h, i] = mset [0, 1, 2, 3, 4, 5, 6, 7, 8]"
    by (rule config_gridE)
  from perm9_facts(2) [OF ms] have "\<forall>v \<in> set [a, b, c, d, e, f, g, h, i]. 0 \<le> v \<and> v \<le> 8"
    by auto
  then show ?thesis by (simp add: s is_digit_grid_def)
qed

lemma swap_differs:
  assumes "is_config s" "one_blank_swap s t"
  shows "t \<noteq> s"
proof -
  from assms obtain ns where ns: "get_neighbors s = Inr ns" "t \<in> set ns"
    by (auto simp: one_blank_swap_iff)
  show ?thesis using assms(1)
  proof (cases rule: config_cases)
    case b00
    show ?thesis using ns b00(1,3,4) by auto
  next
    case b01
    show ?thesis using ns b01(1,3,4) by auto
  next
    case b02
    show ?thesis using ns b02(1,3,4) by auto
  next
    case b10
    show ?thesis using ns b10(1,3,4) by auto
  next
    case b11
    show ?thesis using ns b11(1,3,4) by auto
  next
    case b12
    show ?thesis using ns b12(1,3,4) by auto
  next
    case b20
    show ?thesis using ns b20(1,3,4) by auto
  next
    case b21
    show ?thesis using ns b21(1,3,4) by auto
  next
    case b22
    show ?thesis using ns b22(1,3,4) by auto
  qed
qed

section \<open>Claims about the state model\<close>

text \<open>
  Claim C9. For a configuration that is a permutation of 0..8, \<^verbatim>\<open>get_blank_position\<close>
  returns the row and column of the one cell that holds 0: the returned position lies in
  the grid, the cell there is 0, no other cell of the grid is 0, the result is not
  \<^verbatim>\<open>None\<close>, and \<^verbatim>\<open>get_neighbors\<close> returns a list instead of failing on the unpacking.
\<close>

theorem blank_position_found:
  assumes "is_config s"
  shows "\<exists>i j. get_blank_position s = Inr (Some (i, j)) \<and> i < 3 \<and> j < 3 \<and> cell s i j = Inr 0 \<and>
           (\<forall>k < 3. \<forall>l < 3. cell s k l = Inr 0 \<longrightarrow> k = i \<and> l = j) \<and>
           get_blank_position s \<noteq> Inr None \<and>
           (\<exists>ns. get_neighbors s = Inr ns)"
  using assms
  by (cases rule: config_cases)
     (auto simp: get_blank_position_grid cell_def numeral_3_eq_3 less_Suc_eq)

theorem blank_position_found_witness:
  "is_config [[1, 2, 3], [4, 0, 5], [7, 8, 6]] \<and>
   (\<exists>i j. get_blank_position [[1, 2, 3], [4, 0, 5], [7, 8, 6]] = Inr (Some (i, j)) \<and> i < 3 \<and> j < 3 \<and>
      cell [[1, 2, 3], [4, 0, 5], [7, 8, 6]] i j = Inr 0 \<and>
      (\<forall>k < 3. \<forall>l < 3. cell [[1, 2, 3], [4, 0, 5], [7, 8, 6]] k l = Inr 0 \<longrightarrow> k = i \<and> l = j) \<and>
      get_blank_position [[1, 2, 3], [4, 0, 5], [7, 8, 6]] \<noteq> Inr None \<and>
      (\<exists>ns. get_neighbors [[1, 2, 3], [4, 0, 5], [7, 8, 6]] = Inr ns))"
proof -
  have h: "is_config [[1, 2, 3], [4, 0, 5], [7, 8, 6]]" by (simp add: is_config_def)
  from h blank_position_found [OF h] show ?thesis by (rule conjI)
qed

text \<open>
  Claim C3. For a configuration that is a permutation of 0..8, \<^verbatim>\<open>get_neighbors\<close> returns
  4 states when the blank is in the centre (row 1, column 1), 3 when it is on an edge
  (exactly one of row and column is 1) and 2 when it is in a corner; every returned state
  is one swap of the blank with a cell next to it in its row or column, differs from the
  input, and is again a permutation of 0..8.
\<close>

theorem get_neighbors_count_and_moves:
  assumes "is_config s"
  shows "\<exists>i j ns. get_blank_position s = Inr (Some (i, j)) \<and> get_neighbors s = Inr ns \<and>
           length ns = (if i = 1 \<and> j = 1 then 4 else if i = 1 \<or> j = 1 then 3 else 2) \<and>
           (\<forall>n \<in> set ns. one_blank_swap s n \<and> n \<noteq> s \<and> is_config n)"
proof -
  from config_neighbors [OF assms] obtain ns where ns: "get_neighbors s = Inr ns"
    and cf: "\<forall>n \<in> set ns. is_config n" by blast
  have sw: "\<forall>n \<in> set ns. one_blank_swap s n" using neighbors_are_swaps [OF assms ns] by blast
  have "\<exists>i j. get_blank_position s = Inr (Some (i, j)) \<and>
           length ns = (if i = 1 \<and> j = 1 then 4 else if i = 1 \<or> j = 1 then 3 else 2) \<and>
           (\<forall>n \<in> set ns. n \<noteq> s)"
    using assms
  proof (cases rule: config_cases)
    case b00
    show ?thesis using ns b00(1,3,4) by (auto simp: get_blank_position_grid)
  next
    case b01
    show ?thesis using ns b01(1,3,4) by (auto simp: get_blank_position_grid)
  next
    case b02
    show ?thesis using ns b02(1,3,4) by (auto simp: get_blank_position_grid)
  next
    case b10
    show ?thesis using ns b10(1,3,4) by (auto simp: get_blank_position_grid)
  next
    case b11
    show ?thesis using ns b11(1,3,4) by (auto simp: get_blank_position_grid)
  next
    case b12
    show ?thesis using ns b12(1,3,4) by (auto simp: get_blank_position_grid)
  next
    case b20
    show ?thesis using ns b20(1,3,4) by (auto simp: get_blank_position_grid)
  next
    case b21
    show ?thesis using ns b21(1,3,4) by (auto simp: get_blank_position_grid)
  next
    case b22
    show ?thesis using ns b22(1,3,4) by (auto simp: get_blank_position_grid)
  qed
  with ns cf sw show ?thesis by blast
qed

theorem get_neighbors_count_and_moves_witness:
  "is_config [[1, 2, 3], [4, 5, 6], [7, 0, 8]] \<and>
   (\<exists>i j ns. get_blank_position [[1, 2, 3], [4, 5, 6], [7, 0, 8]] = Inr (Some (i, j)) \<and>
      get_neighbors [[1, 2, 3], [4, 5, 6], [7, 0, 8]] = Inr ns \<and>
      length ns = (if i = 1 \<and> j = 1 then 4 else if i = 1 \<or> j = 1 then 3 else 2) \<and>
      (\<forall>n \<in> set ns. one_blank_swap [[1, 2, 3], [4, 5, 6], [7, 0, 8]] n \<and>
         n \<noteq> [[1, 2, 3], [4, 5, 6], [7, 0, 8]] \<and> is_config n))"
proof -
  have h: "is_config [[1, 2, 3], [4, 5, 6], [7, 0, 8]]" by (simp add: is_config_def)
  from h get_neighbors_count_and_moves [OF h] show ?thesis by (rule conjI)
qed

text \<open>
  Claim C4. For a configuration that is a permutation of 0..8, \<^verbatim>\<open>manhattan_distance\<close>
  returns an integer that is not negative, and that integer is 0 exactly when the
  configuration is the goal configuration; \<^verbatim>\<open>manhattan_distance\<close> of the goal
  configuration is 0.
\<close>

theorem manhattan_distance_zero_iff_goal:
  assumes "is_config s"
  shows "(\<exists>d. manhattan_distance s = Inr d \<and> 0 \<le> d \<and> (d = 0 \<longleftrightarrow> s = goal_state)) \<and>
         manhattan_distance goal_state = Inr 0"
  using manhattan_config [OF assms] manhattan_goal by (rule conjI)

theorem manhattan_distance_zero_iff_goal_witness:
  "is_config [[1, 2, 3], [4, 0, 5], [7, 8, 6]] \<and>
   (\<exists>d. manhattan_distance [[1, 2, 3], [4, 0, 5], [7, 8, 6]] = Inr d \<and> 0 \<le> d \<and>
      (d = 0 \<longleftrightarrow> [[1, 2, 3], [4, 0, 5], [7, 8, 6]] = goal_state)) \<and>
   manhattan_distance goal_state = Inr 0"
proof -
  have h: "is_config [[1, 2, 3], [4, 0, 5], [7, 8, 6]]" by (simp add: is_config_def)
  from h manhattan_distance_zero_iff_goal [OF h] show ?thesis by (rule conjI)
qed

text \<open>
  Claim C8. On 3 by 3 grids whose cells are values in 0..8, \<^verbatim>\<open>state_to_string\<close> is
  injective: two such grids have the same string exactly when they are equal.
\<close>

theorem state_to_string_injective:
  assumes "is_digit_grid s" "is_digit_grid t"
  shows "state_to_string s = state_to_string t \<longleftrightarrow> s = t"
  using state_to_string_inj [OF assms] by blast

theorem state_to_string_injective_witness:
  "is_digit_grid [[1, 1, 3], [4, 0, 5], [7, 8, 6]] \<and> is_digit_grid [[1, 2, 3], [4, 0, 5], [7, 8, 6]] \<and>
   (state_to_string [[1, 1, 3], [4, 0, 5], [7, 8, 6]] = state_to_string [[1, 2, 3], [4, 0, 5], [7, 8, 6]]
      \<longleftrightarrow> [[1, 1, 3], [4, 0, 5], [7, 8, 6]] = [[1, 2, 3], [4, 0, 5], [7, 8, 6 :: int]])"
proof -
  have h1: "is_digit_grid [[1, 1, 3], [4, 0, 5], [7, 8, 6]]" by (simp add: is_digit_grid_def)
  have h2: "is_digit_grid [[1, 2, 3], [4, 0, 5], [7, 8, 6]]" by (simp add: is_digit_grid_def)
  from h1 h2 state_to_string_injective [OF h1 h2] show ?thesis by blast
qed

section \<open>Correctness of breadth-first search\<close>

lemma finite_configs: "finite {s. is_config s}"
proof -
  let ?rows = "{r :: int list. set r \<subseteq> {0..8} \<and> length r = 3}"
  have fr: "finite ?rows" by (rule finite_lists_length_eq) simp
  have "finite {s. set s \<subseteq> ?rows \<and> length s = 3}" using fr by (rule finite_lists_length_eq)
  moreover have "{s. is_config s} \<subseteq> {s. set s \<subseteq> ?rows \<and> length s = 3}"
  proof
    fix s assume "s \<in> {s. is_config s}"
    then have c: "is_config s" by simp
    then obtain a b c d e f g h i where s: "s = [[a, b, c], [d, e, f], [g, h, i]]"
      and ms: "mset [a, b, c, d, e, f, g, h, i] = mset [0, 1, 2, 3, 4, 5, 6, 7, 8]"
      by (rule config_gridE)
    from perm9_facts(2) [OF ms] have "\<forall>v \<in> set [a, b, c, d, e, f, g, h, i]. 0 \<le> v \<and> v \<le> 8"
      by auto
    then show "s \<in> {s. set s \<subseteq> ?rows \<and> length s = 3}" by (simp add: s)
  qed
  ultimately show ?thesis by (rule rev_finite_subset)
qed

lemma finite_unvisited: "finite (unvisited vs)"
  using finite_configs by (rule rev_finite_subset) (auto simp: unvisited_def)

lemma key_inj:
  assumes "is_config s" "is_config t" "state_to_string s = state_to_string t"
  shows "s = t"
  using assms by (intro state_to_string_inj config_digit_grid)

lemma valid_path_append:
  "valid_path s (p @ q) \<longleftrightarrow> valid_path s p \<and> valid_path (last (s # p)) q"
  by (induction p arbitrary: s) auto

lemma leads_to_snoc:
  assumes "leads_to s p t" "one_blank_swap t u"
  shows "leads_to s (p @ [u]) u"
  using assms by (simp add: leads_to_def valid_path_append)

lemma valid_path_config:
  assumes "is_config s" "valid_path s p"
  shows "is_config (last (s # p))"
  using assms by (induction p arbitrary: s) (auto dest: swap_config)

lemma leads_to_config: "is_config s \<Longrightarrow> leads_to s p t \<Longrightarrow> is_config t"
  using valid_path_config by (auto simp: leads_to_def)

lemma path_crossing:
  assumes "valid_path u p" "state_to_string u \<in> vs" "state_to_string (last (u # p)) \<notin> vs"
  shows "\<exists>p1 w p2. p = p1 @ w # p2 \<and> state_to_string (last (u # p1)) \<in> vs \<and>
           state_to_string w \<notin> vs \<and> one_blank_swap (last (u # p1)) w"
  using assms
proof (induction p arbitrary: u)
  case Nil
  then show ?case by simp
next
  case (Cons t ts)
  show ?case
  proof (cases "state_to_string t \<in> vs")
    case False
    with Cons.prems have "t # ts = [] @ t # ts \<and> state_to_string (last (u # [])) \<in> vs \<and>
           state_to_string t \<notin> vs \<and> one_blank_swap (last (u # [])) t" by simp
    then show ?thesis by blast
  next
    case True
    from Cons.prems have "valid_path t ts" "state_to_string (last (t # ts)) \<notin> vs" by simp_all
    from Cons.IH [OF this(1) True this(2)] obtain p1 w p2 where
      "ts = p1 @ w # p2" "state_to_string (last (t # p1)) \<in> vs" "state_to_string w \<notin> vs"
      "one_blank_swap (last (t # p1)) w" by blast
    then have "t # ts = (t # p1) @ w # p2 \<and> state_to_string (last (u # t # p1)) \<in> vs \<and>
           state_to_string w \<notin> vs \<and> one_blank_swap (last (u # t # p1)) w" by simp
    then show ?thesis by blast
  qed
qed

lemma bfs_expand_spec:
  "\<exists>new. bfs_expand ns p vs q =
            (vs \<union> state_to_string ` set ns, q @ map (\<lambda>n. (n, p @ [n])) new) \<and>
         set new \<subseteq> set ns \<and>
         state_to_string ` set new = state_to_string ` set ns - vs \<and>
         distinct (map state_to_string new)"
proof (induction ns arbitrary: vs q)
  case Nil
  show ?case by simp
next
  case (Cons n ns)
  show ?case
  proof (cases "state_to_string n \<in> vs")
    case True
    from Cons.IH [of vs q] obtain new where
      e: "bfs_expand ns p vs q = (vs \<union> state_to_string ` set ns, q @ map (\<lambda>n. (n, p @ [n])) new)"
      and n: "set new \<subseteq> set ns" "state_to_string ` set new = state_to_string ` set ns - vs"
        "distinct (map state_to_string new)" by blast
    have "bfs_expand (n # ns) p vs q =
            (vs \<union> state_to_string ` set (n # ns), q @ map (\<lambda>n. (n, p @ [n])) new)"
      using True e by (simp add: insert_absorb)
    moreover have "set new \<subseteq> set (n # ns)" using n(1) by auto
    moreover have "state_to_string ` set new = state_to_string ` set (n # ns) - vs"
      using n(2) True by auto
    ultimately show ?thesis using n(3) by blast
  next
    case False
    from Cons.IH [of "insert (state_to_string n) vs" "q @ [(n, p @ [n])]"] obtain new where
      e: "bfs_expand ns p (insert (state_to_string n) vs) (q @ [(n, p @ [n])]) =
           (insert (state_to_string n) vs \<union> state_to_string ` set ns,
            (q @ [(n, p @ [n])]) @ map (\<lambda>n. (n, p @ [n])) new)"
      and n: "set new \<subseteq> set ns"
        "state_to_string ` set new = state_to_string ` set ns - insert (state_to_string n) vs"
        "distinct (map state_to_string new)" by blast
    have "bfs_expand (n # ns) p vs q =
            (vs \<union> state_to_string ` set (n # ns), q @ map (\<lambda>n. (n, p @ [n])) (n # new))"
      using False e by simp
    moreover have "set (n # new) \<subseteq> set (n # ns)" using n(1) by auto
    moreover have "state_to_string ` set (n # new) = state_to_string ` set (n # ns) - vs"
      using n(2) False by auto
    moreover have "distinct (map state_to_string (n # new))" using n(2,3) by auto
    ultimately show ?thesis by blast
  qed
qed

lemma neighbors_of_config:
  assumes "is_config s"
  obtains ns where "get_neighbors s = Inr ns" "\<forall>n \<in> set ns. is_config n"
    "\<forall>t. one_blank_swap s t \<longleftrightarrow> t \<in> set ns"
proof -
  from config_neighbors [OF assms] obtain ns where ns: "get_neighbors s = Inr ns"
    and c: "\<forall>n \<in> set ns. is_config n" by blast
  have "\<forall>t. one_blank_swap s t \<longleftrightarrow> t \<in> set ns"
    using one_blank_swap_iff [OF assms] ns by simp
  with ns c that show ?thesis by blast
qed

lemma fresh_neighbors:
  assumes c: "\<forall>n \<in> set ns. is_config n"
    and sub: "set new \<subseteq> set ns"
    and img: "state_to_string ` set new = state_to_string ` set ns - vs"
  shows "set new = {n \<in> set ns. state_to_string n \<notin> vs}"
proof (intro set_eqI iffI)
  fix n assume n: "n \<in> set new"
  then have "state_to_string n \<in> state_to_string ` set ns - vs" using img by blast
  with n sub show "n \<in> {n \<in> set ns. state_to_string n \<notin> vs}" by blast
next
  fix n assume "n \<in> {n \<in> set ns. state_to_string n \<notin> vs}"
  then have n: "n \<in> set ns" "state_to_string n \<notin> vs" by simp_all
  then have "state_to_string n \<in> state_to_string ` set new" using img by blast
  then obtain m where m: "m \<in> set new" "state_to_string m = state_to_string n" by auto
  with sub c n(1) have "m = n" by (intro key_inj) auto
  with m show "n \<in> set new" by simp
qed

lemma unvisited_step:
  assumes c: "\<forall>n \<in> set ns. is_config n"
    and new: "set new = {n \<in> set ns. state_to_string n \<notin> vs}"
    and d: "distinct (map state_to_string new)"
  shows "card (unvisited (vs \<union> state_to_string ` set ns)) + length new = card (unvisited vs)"
proof -
  have eq: "unvisited (vs \<union> state_to_string ` set ns) = unvisited vs - set new"
  proof (intro set_eqI iffI)
    fix x assume "x \<in> unvisited (vs \<union> state_to_string ` set ns)"
    then have x: "is_config x" "state_to_string x \<notin> vs" "state_to_string x \<notin> state_to_string ` set ns"
      by (auto simp: unvisited_def)
    then have "x \<notin> set new" using new by auto
    with x show "x \<in> unvisited vs - set new" by (simp add: unvisited_def)
  next
    fix x assume "x \<in> unvisited vs - set new"
    then have x: "is_config x" "state_to_string x \<notin> vs" "x \<notin> set new"
      by (auto simp: unvisited_def)
    have "state_to_string x \<notin> state_to_string ` set ns"
    proof
      assume "state_to_string x \<in> state_to_string ` set ns"
      then obtain n where n: "n \<in> set ns" "state_to_string n = state_to_string x" by auto
      with c x(1) have "n = x" by (intro key_inj) auto
      with n x(2,3) new show False by auto
    qed
    with x show "x \<in> unvisited (vs \<union> state_to_string ` set ns)" by (simp add: unvisited_def)
  qed
  have sub: "set new \<subseteq> unvisited vs" using new c by (auto simp: unvisited_def)
  have "distinct new" using d by (simp add: distinct_map)
  then have cn: "card (set new) = length new" by (rule distinct_card)
  have "card (unvisited vs - set new) = card (unvisited vs) - card (set new)"
    using sub by (intro card_Diff_subset) simp_all
  moreover have "card (set new) \<le> card (unvisited vs)"
    using sub finite_unvisited by (rule card_mono [rotated])
  ultimately show ?thesis using eq cn by simp
qed

lemma bfs_step:
  assumes inv: "bfs_invariant init ((s, p) # q) vs" and ng: "s \<noteq> goal_state"
  shows "\<exists>ns vs' q'. get_neighbors s = Inr ns \<and> bfs_expand ns p vs q = (vs', q') \<and>
           bfs_invariant init q' vs' \<and> bfs_measure q' vs' < bfs_measure ((s, p) # q) vs"
proof -
  let ?K = state_to_string
  from inv have ci: "is_config init" and ki: "?K init \<in> vs"
    and ent: "\<forall>e \<in> set ((s, p) # q). is_config (fst e) \<and> leads_to init (snd e) (fst e) \<and>
          ?K (fst e) \<in> vs \<and> (\<forall>r. leads_to init r (fst e) \<longrightarrow> length (snd e) \<le> length r)"
    and srt: "sorted (map (\<lambda>e. length (snd e)) ((s, p) # q))"
    and bnd: "\<forall>e \<in> set ((s, p) # q). length (snd e) \<le> Suc (length (snd (hd ((s, p) # q))))"
    and cl: "\<forall>u. is_config u \<and> ?K u \<in> vs \<and> u \<notin> fst ` set ((s, p) # q) \<longrightarrow>
          u \<noteq> goal_state \<and> (\<forall>t. one_blank_swap u t \<longrightarrow> ?K t \<in> vs)"
    unfolding bfs_invariant_def by blast+
  from ent have cs: "is_config s" and lp: "leads_to init p s" and ks: "?K s \<in> vs" by auto
  from ent have entq: "\<forall>e \<in> set q. is_config (fst e) \<and> leads_to init (snd e) (fst e) \<and>
          ?K (fst e) \<in> vs \<and> (\<forall>r. leads_to init r (fst e) \<longrightarrow> length (snd e) \<le> length r)"
    by simp
  from srt have lo: "\<forall>e \<in> set q. length p \<le> length (snd e)"
    and srtq: "sorted (map (\<lambda>e. length (snd e)) q)" by auto
  from bnd have hi: "\<forall>e \<in> set q. length (snd e) \<le> Suc (length p)" by simp
  have minq: "\<forall>e \<in> set ((s, p) # q). \<forall>r. leads_to init r (fst e) \<longrightarrow> length p \<le> length r"
  proof (intro ballI allI impI)
    fix e r assume e: "e \<in> set ((s, p) # q)" and r: "leads_to init r (fst e)"
    from ent e r have "length (snd e) \<le> length r" by blast
    moreover from e lo have "length p \<le> length (snd e)" by auto
    ultimately show "length p \<le> length r" by simp
  qed
  from cs obtain ns where ns: "get_neighbors s = Inr ns" and cns: "\<forall>n \<in> set ns. is_config n"
    and mv: "\<forall>t. one_blank_swap s t \<longleftrightarrow> t \<in> set ns" by (rule neighbors_of_config)
  from bfs_expand_spec [of ns p vs q] obtain new where
    ex: "bfs_expand ns p vs q = (vs \<union> ?K ` set ns, q @ map (\<lambda>n. (n, p @ [n])) new)"
    and sub: "set new \<subseteq> set ns" and img: "?K ` set new = ?K ` set ns - vs"
    and dk: "distinct (map ?K new)" by blast
  let ?vs = "vs \<union> ?K ` set ns" and ?q = "q @ map (\<lambda>n. (n, p @ [n])) new"
  have new: "set new = {n \<in> set ns. ?K n \<notin> vs}" using cns sub img by (rule fresh_neighbors)
  have far: "Suc (length p) \<le> length r" if kn: "?K n \<notin> vs" and r: "leads_to init r n" for n r
  proof -
    from r have vp: "valid_path init r" and "last (init # r) = n" by (simp_all add: leads_to_def)
    with kn have "?K (last (init # r)) \<notin> vs" by simp
    from path_crossing [OF vp ki this] obtain p1 w p2 where
      r': "r = p1 @ w # p2" and ku: "?K (last (init # p1)) \<in> vs" and kw: "?K w \<notin> vs"
      and uw: "one_blank_swap (last (init # p1)) w" by blast
    let ?u = "last (init # p1)"
    from vp r' have vp1: "valid_path init p1" by (simp add: valid_path_append)
    then have l1: "leads_to init p1 ?u" by (simp add: leads_to_def)
    from ci vp1 have cu: "is_config ?u" by (rule valid_path_config)
    have "?u \<in> fst ` set ((s, p) # q)"
    proof (rule ccontr)
      assume "?u \<notin> fst ` set ((s, p) # q)"
      with cl cu ku uw have "?K w \<in> vs" by blast
      with kw show False by contradiction
    qed
    then obtain e where e: "e \<in> set ((s, p) # q)" "fst e = ?u" unfolding image_iff by metis
    with minq l1 have "length p \<le> length p1" by metis
    with r' show ?thesis by simp
  qed
  have A: "\<forall>e \<in> set ?q. is_config (fst e) \<and> leads_to init (snd e) (fst e) \<and>
          ?K (fst e) \<in> ?vs \<and> (\<forall>r. leads_to init r (fst e) \<longrightarrow> length (snd e) \<le> length r)"
  proof
    fix e assume "e \<in> set ?q"
    then consider "e \<in> set q" | n where "n \<in> set new" "e = (n, p @ [n])" by auto
    then show "is_config (fst e) \<and> leads_to init (snd e) (fst e) \<and>
          ?K (fst e) \<in> ?vs \<and> (\<forall>r. leads_to init r (fst e) \<longrightarrow> length (snd e) \<le> length r)"
    proof cases
      case 1
      with entq show ?thesis by blast
    next
      case 2
      from 2(1) new have nn: "n \<in> set ns" "?K n \<notin> vs" by auto
      from nn(1) cns have "is_config n" by blast
      moreover from nn(1) mv have "one_blank_swap s n" by blast
      with lp have "leads_to init (p @ [n]) n" by (rule leads_to_snoc)
      moreover from nn(1) have "?K n \<in> ?vs" by blast
      moreover have "\<forall>r. leads_to init r n \<longrightarrow> length (p @ [n]) \<le> length r"
        using far [OF nn(2)] by simp
      ultimately show ?thesis using 2(2) by simp
    qed
  qed
  have lens: "\<forall>e \<in> set ?q. length p \<le> length (snd e) \<and> length (snd e) \<le> Suc (length p)"
    using lo hi by auto
  have "map (\<lambda>e. length (snd e)) ?q =
          map (\<lambda>e. length (snd e)) q @ replicate (length new) (Suc (length p))"
    by (simp add: o_def map_replicate_const)
  moreover have "sorted (map (\<lambda>e. length (snd e)) q @ replicate (length new) (Suc (length p)))"
    unfolding sorted_append using srtq hi by simp
  ultimately have B: "sorted (map (\<lambda>e. length (snd e)) ?q)" by simp
  have C: "\<forall>e \<in> set ?q. length (snd e) \<le> Suc (length (snd (hd ?q)))"
  proof
    fix e assume e: "e \<in> set ?q"
    then have "?q \<noteq> []" by auto
    then have "hd ?q \<in> set ?q" by (rule hd_in_set)
    with lens have "length p \<le> length (snd (hd ?q))" by blast
    moreover from e lens have "length (snd e) \<le> Suc (length p)" by blast
    ultimately show "length (snd e) \<le> Suc (length (snd (hd ?q)))" by simp
  qed
  have D: "\<forall>u. is_config u \<and> ?K u \<in> ?vs \<and> u \<notin> fst ` set ?q \<longrightarrow>
          u \<noteq> goal_state \<and> (\<forall>t. one_blank_swap u t \<longrightarrow> ?K t \<in> ?vs)"
  proof (intro allI impI)
    fix u assume h: "is_config u \<and> ?K u \<in> ?vs \<and> u \<notin> fst ` set ?q"
    then have cu: "is_config u" and notq: "u \<notin> fst ` set q" and notnew: "u \<notin> set new"
      by (auto simp: image_Un image_image)
    have ku: "?K u \<in> vs"
    proof (rule ccontr)
      assume nk: "?K u \<notin> vs"
      with h have "?K u \<in> ?K ` set ns" by blast
      then obtain n where n: "n \<in> set ns" "?K n = ?K u" by auto
      with cns cu have "n = u" by (intro key_inj) auto
      with n nk new have "u \<in> set new" by simp
      with notnew show False by contradiction
    qed
    show "u \<noteq> goal_state \<and> (\<forall>t. one_blank_swap u t \<longrightarrow> ?K t \<in> ?vs)"
    proof (cases "u = s")
      case True
      with ng mv show ?thesis by auto
    next
      case False
      with notq have "u \<notin> fst ` set ((s, p) # q)" by simp
      with cl cu ku show ?thesis by blast
    qed
  qed
  have inv': "bfs_invariant init ?q ?vs"
    unfolding bfs_invariant_def using ci ki A B C D by blast
  have "card (unvisited ?vs) + length new = card (unvisited vs)"
    using cns new dk by (rule unvisited_step)
  then have "bfs_measure ?q ?vs < bfs_measure ((s, p) # q) vs"
    by (simp add: bfs_measure_def)
  with ns ex inv' show ?thesis by blast
qed

lemma bfs_invariant_init:
  assumes "is_config init"
  shows "bfs_invariant init [(init, [])] {state_to_string init}"
proof -
  have "s = init" if "is_config s" "state_to_string s = state_to_string init" for s
    using that assms by (intro key_inj)
  then show ?thesis using assms by (auto simp: bfs_invariant_def leads_to_def)
qed

lemma bfs_exhausted:
  assumes inv: "bfs_invariant init [] vs"
  shows "\<not> reachable init goal_state"
proof
  let ?K = state_to_string
  from inv have ci: "is_config init" and ki: "?K init \<in> vs"
    and cl: "\<forall>u. is_config u \<and> ?K u \<in> vs \<longrightarrow>
          u \<noteq> goal_state \<and> (\<forall>t. one_blank_swap u t \<longrightarrow> ?K t \<in> vs)"
    unfolding bfs_invariant_def by simp_all
  assume "reachable init goal_state"
  then obtain r where vp: "valid_path init r" and lr: "last (init # r) = goal_state"
    by (auto simp: reachable_def leads_to_def)
  from ci vp have cg: "is_config (last (init # r))" by (rule valid_path_config)
  have "?K (last (init # r)) \<in> vs"
  proof (rule ccontr)
    assume "?K (last (init # r)) \<notin> vs"
    from path_crossing [OF vp ki this] obtain p1 w p2 where
      r': "r = p1 @ w # p2" and ku: "?K (last (init # p1)) \<in> vs" and kw: "?K w \<notin> vs"
      and uw: "one_blank_swap (last (init # p1)) w" by blast
    from vp r' have "valid_path init p1" by (simp add: valid_path_append)
    with ci have "is_config (last (init # p1))" by (rule valid_path_config)
    with cl ku uw have "?K w \<in> vs" by blast
    with kw show False by contradiction
  qed
  with cl cg have "last (init # r) \<noteq> goal_state" by blast
  with lr show False by contradiction
qed

lemma bfs_loop_correct:
  assumes "bfs_invariant init q vs"
  shows "(\<exists>p. bfs_loop q vs = Some (Inr (Some p)) \<and> leads_to init p goal_state \<and>
              (\<forall>r. leads_to init r goal_state \<longrightarrow> length p \<le> length r)) \<or>
         (bfs_loop q vs = Some (Inr None) \<and> \<not> reachable init goal_state)"
  using assms
proof (induction "bfs_measure q vs" arbitrary: q vs rule: less_induct)
  case less
  show ?case
  proof (cases q)
    case Nil
    with less.prems have "\<not> reachable init goal_state" using bfs_exhausted by blast
    moreover have "bfs_loop q vs = Some (Inr None)" using Nil by (subst bfs_loop.simps) simp
    ultimately show ?thesis by blast
  next
    case (Cons e q')
    obtain s p where e: "e = (s, p)" by (cases e)
    show ?thesis
    proof (cases "s = goal_state")
      case True
      have "bfs_loop q vs = Some (Inr (Some p))"
        using Cons e True by (subst bfs_loop.simps) (simp add: is_goal_def)
      moreover from less.prems Cons e True
      have "leads_to init p goal_state \<and> (\<forall>r. leads_to init r goal_state \<longrightarrow> length p \<le> length r)"
        unfolding bfs_invariant_def by simp
      ultimately show ?thesis by blast
    next
      case False
      from less.prems Cons e have inv: "bfs_invariant init ((s, p) # q') vs" by simp
      from bfs_step [OF inv False] obtain ns vs' q'' where
        ns: "get_neighbors s = Inr ns" and ex: "bfs_expand ns p vs q' = (vs', q'')"
        and inv': "bfs_invariant init q'' vs'"
        and m: "bfs_measure q'' vs' < bfs_measure ((s, p) # q') vs" by blast
      have step: "bfs_loop q vs = bfs_loop q'' vs'"
        using Cons e False ns ex by (subst bfs_loop.simps) (simp add: is_goal_def)
      from m Cons e have "bfs_measure q'' vs' < bfs_measure q vs" by simp
      from less.hyps [OF this inv'] show ?thesis unfolding step .
    qed
  qed
qed

lemma solve_bfs_correct:
  assumes "is_config init"
  shows "(\<exists>p. solve_bfs init = Some (Inr (Some p)) \<and> leads_to init p goal_state \<and>
              (\<forall>r. leads_to init r goal_state \<longrightarrow> length p \<le> length r)) \<or>
         (solve_bfs init = Some (Inr None) \<and> \<not> reachable init goal_state)"
  unfolding solve_bfs_def by (rule bfs_loop_correct) (rule bfs_invariant_init [OF assms])

section \<open>The parity of a configuration is kept by every move\<close>

lemma even_from_parts:
  fixes a :: nat
  assumes "a = 2 * k + e1 + e2 + 2 * e3" "e1 = 1" "e2 = 1"
  shows "even a"
  using assms by simp

lemma inversions_rotate:
  assumes "distinct [x, y, z]"
  shows "even (inversions (xs @ x # y # z # ys) + inversions (xs @ y # z # x # ys))"
proof (induction xs)
  case Nil
  have "inversions (x # y # z # ys) + inversions (y # z # x # ys) =
        2 * (length (filter (\<lambda>v. v < x) ys) + length (filter (\<lambda>v. v < y) ys) +
             length (filter (\<lambda>v. v < z) ys) + inversions ys) +
        ((if y < x then 1 else 0) + (if x < y then 1 else 0)) +
        ((if z < x then 1 else 0) + (if x < z then 1 else 0)) +
        2 * (if z < y then 1 else 0)"
    by simp
  moreover have "(if y < x then 1 else 0) + (if x < y then 1 else 0) = (1::nat)"
    using assms by auto
  moreover have "(if z < x then 1 else 0) + (if x < z then 1 else 0) = (1::nat)"
    using assms by auto
  ultimately have "even (inversions (x # y # z # ys) + inversions (y # z # x # ys))"
    by (rule even_from_parts)
  then show ?case by (simp only: append_Nil)
next
  case (Cons a xs)
  have "length (filter (\<lambda>v. v < a) (xs @ x # y # z # ys)) =
        length (filter (\<lambda>v. v < a) (xs @ y # z # x # ys))"
    by simp
  with Cons show ?case by simp
qed

lemma parity_swap_00_10:
  assumes "distinct [0, b, c, d, e, f, g, h, i]"
  shows "odd_parity [[d, b, c], [0, e, f], [g, h, i]] =
         odd_parity [[0, b, c], [d, e, f], [g, h, i]]"
proof -
  from assms have "distinct [d, b, c]" by auto
  from inversions_rotate [OF this, of "[]" "[e, f, g, h, i]"] assms show ?thesis
    by (simp add: odd_parity_def del: inversions.simps)
qed

lemma parity_swap_00_01:
  assumes "distinct [0, b, c, d, e, f, g, h, i]"
  shows "odd_parity [[b, 0, c], [d, e, f], [g, h, i]] =
         odd_parity [[0, b, c], [d, e, f], [g, h, i]]"
  using assms by (simp add: odd_parity_def del: inversions.simps)

lemma parity_swap_01_11:
  assumes "distinct [a, 0, c, d, e, f, g, h, i]"
  shows "odd_parity [[a, e, c], [d, 0, f], [g, h, i]] =
         odd_parity [[a, 0, c], [d, e, f], [g, h, i]]"
proof -
  from assms have "distinct [e, c, d]" by auto
  from inversions_rotate [OF this, of "[a]" "[f, g, h, i]"] assms show ?thesis
    by (simp add: odd_parity_def del: inversions.simps)
qed

lemma parity_swap_01_00:
  assumes "distinct [a, 0, c, d, e, f, g, h, i]"
  shows "odd_parity [[0, a, c], [d, e, f], [g, h, i]] =
         odd_parity [[a, 0, c], [d, e, f], [g, h, i]]"
  using assms by (simp add: odd_parity_def del: inversions.simps)

lemma parity_swap_01_02:
  assumes "distinct [a, 0, c, d, e, f, g, h, i]"
  shows "odd_parity [[a, c, 0], [d, e, f], [g, h, i]] =
         odd_parity [[a, 0, c], [d, e, f], [g, h, i]]"
  using assms by (simp add: odd_parity_def del: inversions.simps)

lemma parity_swap_02_12:
  assumes "distinct [a, b, 0, d, e, f, g, h, i]"
  shows "odd_parity [[a, b, f], [d, e, 0], [g, h, i]] =
         odd_parity [[a, b, 0], [d, e, f], [g, h, i]]"
proof -
  from assms have "distinct [f, d, e]" by auto
  from inversions_rotate [OF this, of "[a, b]" "[g, h, i]"] assms show ?thesis
    by (simp add: odd_parity_def del: inversions.simps)
qed

lemma parity_swap_02_01:
  assumes "distinct [a, b, 0, d, e, f, g, h, i]"
  shows "odd_parity [[a, 0, b], [d, e, f], [g, h, i]] =
         odd_parity [[a, b, 0], [d, e, f], [g, h, i]]"
  using assms by (simp add: odd_parity_def del: inversions.simps)

lemma parity_swap_10_00:
  assumes "distinct [a, b, c, 0, e, f, g, h, i]"
  shows "odd_parity [[0, b, c], [a, e, f], [g, h, i]] =
         odd_parity [[a, b, c], [0, e, f], [g, h, i]]"
proof -
  from assms have "distinct [a, b, c]" by auto
  from inversions_rotate [OF this, of "[]" "[e, f, g, h, i]"] assms show ?thesis
    by (simp add: odd_parity_def del: inversions.simps)
qed

lemma parity_swap_10_20:
  assumes "distinct [a, b, c, 0, e, f, g, h, i]"
  shows "odd_parity [[a, b, c], [g, e, f], [0, h, i]] =
         odd_parity [[a, b, c], [0, e, f], [g, h, i]]"
proof -
  from assms have "distinct [g, e, f]" by auto
  from inversions_rotate [OF this, of "[a, b, c]" "[h, i]"] assms show ?thesis
    by (simp add: odd_parity_def del: inversions.simps)
qed

lemma parity_swap_10_11:
  assumes "distinct [a, b, c, 0, e, f, g, h, i]"
  shows "odd_parity [[a, b, c], [e, 0, f], [g, h, i]] =
         odd_parity [[a, b, c], [0, e, f], [g, h, i]]"
  using assms by (simp add: odd_parity_def del: inversions.simps)

lemma parity_swap_11_01:
  assumes "distinct [a, b, c, d, 0, f, g, h, i]"
  shows "odd_parity [[a, 0, c], [d, b, f], [g, h, i]] =
         odd_parity [[a, b, c], [d, 0, f], [g, h, i]]"
proof -
  from assms have "distinct [b, c, d]" by auto
  from inversions_rotate [OF this, of "[a]" "[f, g, h, i]"] assms show ?thesis
    by (simp add: odd_parity_def del: inversions.simps)
qed

lemma parity_swap_11_21:
  assumes "distinct [a, b, c, d, 0, f, g, h, i]"
  shows "odd_parity [[a, b, c], [d, h, f], [g, 0, i]] =
         odd_parity [[a, b, c], [d, 0, f], [g, h, i]]"
proof -
  from assms have "distinct [h, f, g]" by auto
  from inversions_rotate [OF this, of "[a, b, c, d]" "[i]"] assms show ?thesis
    by (simp add: odd_parity_def del: inversions.simps)
qed

lemma parity_swap_11_10:
  assumes "distinct [a, b, c, d, 0, f, g, h, i]"
  shows "odd_parity [[a, b, c], [0, d, f], [g, h, i]] =
         odd_parity [[a, b, c], [d, 0, f], [g, h, i]]"
  using assms by (simp add: odd_parity_def del: inversions.simps)

lemma parity_swap_11_12:
  assumes "distinct [a, b, c, d, 0, f, g, h, i]"
  shows "odd_parity [[a, b, c], [d, f, 0], [g, h, i]] =
         odd_parity [[a, b, c], [d, 0, f], [g, h, i]]"
  using assms by (simp add: odd_parity_def del: inversions.simps)

lemma parity_swap_12_02:
  assumes "distinct [a, b, c, d, e, 0, g, h, i]"
  shows "odd_parity [[a, b, 0], [d, e, c], [g, h, i]] =
         odd_parity [[a, b, c], [d, e, 0], [g, h, i]]"
proof -
  from assms have "distinct [c, d, e]" by auto
  from inversions_rotate [OF this, of "[a, b]" "[g, h, i]"] assms show ?thesis
    by (simp add: odd_parity_def del: inversions.simps)
qed

lemma parity_swap_12_22:
  assumes "distinct [a, b, c, d, e, 0, g, h, i]"
  shows "odd_parity [[a, b, c], [d, e, i], [g, h, 0]] =
         odd_parity [[a, b, c], [d, e, 0], [g, h, i]]"
proof -
  from assms have "distinct [i, g, h]" by auto
  from inversions_rotate [OF this, of "[a, b, c, d, e]" "[]"] assms show ?thesis
    by (simp add: odd_parity_def del: inversions.simps)
qed

lemma parity_swap_12_11:
  assumes "distinct [a, b, c, d, e, 0, g, h, i]"
  shows "odd_parity [[a, b, c], [d, 0, e], [g, h, i]] =
         odd_parity [[a, b, c], [d, e, 0], [g, h, i]]"
  using assms by (simp add: odd_parity_def del: inversions.simps)

lemma parity_swap_20_10:
  assumes "distinct [a, b, c, d, e, f, 0, h, i]"
  shows "odd_parity [[a, b, c], [0, e, f], [d, h, i]] =
         odd_parity [[a, b, c], [d, e, f], [0, h, i]]"
proof -
  from assms have "distinct [d, e, f]" by auto
  from inversions_rotate [OF this, of "[a, b, c]" "[h, i]"] assms show ?thesis
    by (simp add: odd_parity_def del: inversions.simps)
qed

lemma parity_swap_20_21:
  assumes "distinct [a, b, c, d, e, f, 0, h, i]"
  shows "odd_parity [[a, b, c], [d, e, f], [h, 0, i]] =
         odd_parity [[a, b, c], [d, e, f], [0, h, i]]"
  using assms by (simp add: odd_parity_def del: inversions.simps)

lemma parity_swap_21_11:
  assumes "distinct [a, b, c, d, e, f, g, 0, i]"
  shows "odd_parity [[a, b, c], [d, 0, f], [g, e, i]] =
         odd_parity [[a, b, c], [d, e, f], [g, 0, i]]"
proof -
  from assms have "distinct [e, f, g]" by auto
  from inversions_rotate [OF this, of "[a, b, c, d]" "[i]"] assms show ?thesis
    by (simp add: odd_parity_def del: inversions.simps)
qed

lemma parity_swap_21_20:
  assumes "distinct [a, b, c, d, e, f, g, 0, i]"
  shows "odd_parity [[a, b, c], [d, e, f], [0, g, i]] =
         odd_parity [[a, b, c], [d, e, f], [g, 0, i]]"
  using assms by (simp add: odd_parity_def del: inversions.simps)

lemma parity_swap_21_22:
  assumes "distinct [a, b, c, d, e, f, g, 0, i]"
  shows "odd_parity [[a, b, c], [d, e, f], [g, i, 0]] =
         odd_parity [[a, b, c], [d, e, f], [g, 0, i]]"
  using assms by (simp add: odd_parity_def del: inversions.simps)

lemma parity_swap_22_12:
  assumes "distinct [a, b, c, d, e, f, g, h, 0]"
  shows "odd_parity [[a, b, c], [d, e, 0], [g, h, f]] =
         odd_parity [[a, b, c], [d, e, f], [g, h, 0]]"
proof -
  from assms have "distinct [f, g, h]" by auto
  from inversions_rotate [OF this, of "[a, b, c, d, e]" "[]"] assms show ?thesis
    by (simp add: odd_parity_def del: inversions.simps)
qed

lemma parity_swap_22_21:
  assumes "distinct [a, b, c, d, e, f, g, h, 0]"
  shows "odd_parity [[a, b, c], [d, e, f], [g, 0, h]] =
         odd_parity [[a, b, c], [d, e, f], [g, h, 0]]"
  using assms by (simp add: odd_parity_def del: inversions.simps)

lemmas parity_swaps =
  parity_swap_00_10
  parity_swap_00_01
  parity_swap_01_11
  parity_swap_01_00
  parity_swap_01_02
  parity_swap_02_12
  parity_swap_02_01
  parity_swap_10_00
  parity_swap_10_20
  parity_swap_10_11
  parity_swap_11_01
  parity_swap_11_21
  parity_swap_11_10
  parity_swap_11_12
  parity_swap_12_02
  parity_swap_12_22
  parity_swap_12_11
  parity_swap_20_10
  parity_swap_20_21
  parity_swap_21_11
  parity_swap_21_20
  parity_swap_21_22
  parity_swap_22_12
  parity_swap_22_21

lemma swap_parity:
  assumes "is_config s" "one_blank_swap s t"
  shows "odd_parity t = odd_parity s"
proof -
  from assms obtain ns where ns: "get_neighbors s = Inr ns" "t \<in> set ns"
    by (auto simp: one_blank_swap_iff)
  show ?thesis using assms(1)
  proof (cases rule: config_cases)
    case b00
    show ?thesis
      using ns b00(1,4) parity_swap_00_10 [OF b00(3)]
        parity_swap_00_01 [OF b00(3)]
      by auto
  next
    case b01
    show ?thesis
      using ns b01(1,4) parity_swap_01_11 [OF b01(3)]
        parity_swap_01_00 [OF b01(3)]
        parity_swap_01_02 [OF b01(3)]
      by auto
  next
    case b02
    show ?thesis
      using ns b02(1,4) parity_swap_02_12 [OF b02(3)]
        parity_swap_02_01 [OF b02(3)]
      by auto
  next
    case b10
    show ?thesis
      using ns b10(1,4) parity_swap_10_00 [OF b10(3)]
        parity_swap_10_20 [OF b10(3)]
        parity_swap_10_11 [OF b10(3)]
      by auto
  next
    case b11
    show ?thesis
      using ns b11(1,4) parity_swap_11_01 [OF b11(3)]
        parity_swap_11_21 [OF b11(3)]
        parity_swap_11_10 [OF b11(3)]
        parity_swap_11_12 [OF b11(3)]
      by auto
  next
    case b12
    show ?thesis
      using ns b12(1,4) parity_swap_12_02 [OF b12(3)]
        parity_swap_12_22 [OF b12(3)]
        parity_swap_12_11 [OF b12(3)]
      by auto
  next
    case b20
    show ?thesis
      using ns b20(1,4) parity_swap_20_10 [OF b20(3)]
        parity_swap_20_21 [OF b20(3)]
      by auto
  next
    case b21
    show ?thesis
      using ns b21(1,4) parity_swap_21_11 [OF b21(3)]
        parity_swap_21_20 [OF b21(3)]
        parity_swap_21_22 [OF b21(3)]
      by auto
  next
    case b22
    show ?thesis
      using ns b22(1,4) parity_swap_22_12 [OF b22(3)]
        parity_swap_22_21 [OF b22(3)]
      by auto
  qed
qed

section \<open>Reachability and the bidirectional search\<close>

lemma reachable_refl: "reachable s s"
  unfolding reachable_def leads_to_def by (rule exI [of _ "[]"]) simp

lemma reachable_step:
  assumes "reachable s t" "one_blank_swap t u"
  shows "reachable s u"
  using assms leads_to_snoc unfolding reachable_def by blast

lemma reachable_trans:
  assumes "reachable a b" "reachable b c"
  shows "reachable a c"
proof -
  from assms obtain p q where p: "valid_path a p" "last (a # p) = b"
    and q: "valid_path b q" "last (b # q) = c"
    by (auto simp: reachable_def leads_to_def)
  have "valid_path a (p @ q)" using p q by (simp add: valid_path_append)
  moreover have "last (a # p @ q) = c"
    using p(2) q(2) by (cases q) (simp_all split: if_splits)
  ultimately show ?thesis unfolding reachable_def leads_to_def by blast
qed

lemma valid_path_back:
  assumes "is_config a" "valid_path a p"
  shows "reachable (last (a # p)) a"
  using assms
proof (induction p arbitrary: a)
  case Nil
  show ?case by (simp add: reachable_refl)
next
  case (Cons t ts)
  from Cons.prems have sw: "one_blank_swap a t" and vp: "valid_path t ts" by simp_all
  from Cons.prems(1) sw have ct: "is_config t" by (rule swap_config)
  from Cons.IH [OF ct vp] have "reachable (last (t # ts)) t" .
  moreover from Cons.prems(1) sw have "one_blank_swap t a" by (rule swap_sym)
  ultimately have "reachable (last (t # ts)) a" by (rule reachable_step)
  then show ?case by simp
qed

lemma reachable_sym:
  assumes "is_config a" "reachable a b"
  shows "reachable b a"
  using assms valid_path_back unfolding reachable_def leads_to_def by blast

lemma reachable_config:
  assumes "is_config a" "reachable a b"
  shows "is_config b"
  using assms leads_to_config unfolding reachable_def by blast

lemma bidir_expand_keys:
  "bfs_expand ns p (dom m) q =
     (dom (fst (bidir_expand ns p m q)), snd (bidir_expand ns p m q))"
proof (induction ns arbitrary: m q)
  case Nil
  show ?case by simp
next
  case (Cons n ns)
  show ?case
  proof (cases "m (state_to_string n) = None")
    case True
    then have a: "state_to_string n \<notin> dom m" by (simp add: domIff)
    have b: "insert (state_to_string n) (dom m) = dom (m(state_to_string n \<mapsto> p @ [n]))"
      by simp
    have 1: "bfs_expand (n # ns) p (dom m) q =
        bfs_expand ns p (dom (m(state_to_string n \<mapsto> p @ [n]))) (q @ [(n, p @ [n])])"
      using a unfolding b [symmetric] by simp
    have 2: "bidir_expand (n # ns) p m q =
        bidir_expand ns p (m(state_to_string n \<mapsto> p @ [n])) (q @ [(n, p @ [n])])"
      using True by simp
    show ?thesis unfolding 1 2 by (rule Cons.IH)
  next
    case False
    then have a: "state_to_string n \<in> dom m" by (simp add: domIff)
    have 1: "bfs_expand (n # ns) p (dom m) q = bfs_expand ns p (dom m) q"
      using a by simp
    have 2: "bidir_expand (n # ns) p m q = bidir_expand ns p m q"
      using False by (auto simp: Let_def)
    show ?thesis unfolding 1 2 by (rule Cons.IH)
  qed
qed

lemma bidir_expand_spec:
  "\<exists>m' new. bidir_expand ns p m q = (m', q @ map (\<lambda>n. (n, p @ [n])) new) \<and>
         dom m' = dom m \<union> state_to_string ` set ns \<and>
         set new \<subseteq> set ns \<and>
         state_to_string ` set new = state_to_string ` set ns - dom m \<and>
         distinct (map state_to_string new)"
proof -
  from bfs_expand_spec [of ns p "dom m" q] obtain new where
    e: "bfs_expand ns p (dom m) q =
          (dom m \<union> state_to_string ` set ns, q @ map (\<lambda>n. (n, p @ [n])) new)"
    and n: "set new \<subseteq> set ns" "state_to_string ` set new = state_to_string ` set ns - dom m"
      "distinct (map state_to_string new)" by blast
  obtain m' q' where r: "bidir_expand ns p m q = (m', q')" by (cases "bidir_expand ns p m q")
  from e r bidir_expand_keys [of ns p m q]
  have "dom m' = dom m \<union> state_to_string ` set ns" "q' = q @ map (\<lambda>n. (n, p @ [n])) new"
    by simp_all
  with r n show ?thesis by blast
qed

lemma reachable_parity:
  assumes "is_config a" "reachable a b"
  shows "odd_parity b = odd_parity a"
proof -
  have "odd_parity (last (s # p)) = odd_parity s" if "is_config s" "valid_path s p" for s p
    using that
  proof (induction p arbitrary: s)
    case Nil
    show ?case by simp
  next
    case (Cons t ts)
    from Cons.prems have sw: "one_blank_swap s t" and vp: "valid_path t ts" by simp_all
    from Cons.prems(1) sw have ct: "is_config t" by (rule swap_config)
    from Cons.IH [OF ct vp] swap_parity [OF Cons.prems(1) sw] show ?case by simp
  qed
  with assms show ?thesis unfolding reachable_def leads_to_def by blast
qed

lemma goal_config: "is_config goal_state"
  by (simp add: goal_state_def is_config_def)

lemma odd_parity_unreachable:
  assumes "is_config s" "odd_parity s"
  shows "\<not> reachable s goal_state"
proof
  assume "reachable s goal_state"
  from reachable_parity [OF assms(1) this] assms(2) have "odd_parity goal_state" by simp
  then show False by (simp add: odd_parity_def goal_state_def)
qed

section \<open>Claims about the searches\<close>

text \<open>
  Claim C1. For an initial configuration that is a permutation of 0..8 and from which the
  goal configuration can be reached by legal moves, \<^verbatim>\<open>solve_bfs\<close> returns a path; the path
  leads from the initial configuration to the goal by legal moves, and its number of
  moves is the shortest-path distance: no path of legal moves to the goal is shorter. When
  the initial configuration is one move from the goal, the returned path has length 1.
\<close>

theorem solve_bfs_shortest:
  assumes "is_config init" "reachable init goal_state"
  shows "\<exists>p. solve_bfs init = Some (Inr (Some p)) \<and> leads_to init p goal_state \<and>
           is_distance init goal_state (length p) \<and>
           (one_blank_swap init goal_state \<longrightarrow> length p = 1)"
proof -
  from solve_bfs_correct [OF assms(1)] assms(2) obtain p where
    p: "solve_bfs init = Some (Inr (Some p))" "leads_to init p goal_state"
    and m: "\<forall>r. leads_to init r goal_state \<longrightarrow> length p \<le> length r" by blast
  from p(2) m have d: "is_distance init goal_state (length p)"
    unfolding is_distance_def by blast
  have "length p = 1" if sw: "one_blank_swap init goal_state"
  proof -
    from sw have "leads_to init [goal_state] goal_state" by (simp add: leads_to_def)
    with m have "length p \<le> 1" by fastforce
    moreover have "p \<noteq> []"
    proof
      assume "p = []"
      with p(2) have "init = goal_state" by (simp add: leads_to_def)
      with swap_differs [OF assms(1) sw] show False by simp
    qed
    ultimately show ?thesis by (cases p) simp_all
  qed
  with p d show ?thesis by blast
qed

theorem solve_bfs_shortest_witness:
  "is_config [[1, 2, 3], [4, 5, 6], [7, 0, 8]] \<and> reachable [[1, 2, 3], [4, 5, 6], [7, 0, 8]] goal_state \<and>
   (\<exists>p. solve_bfs [[1, 2, 3], [4, 5, 6], [7, 0, 8]] = Some (Inr (Some p)) \<and>
      leads_to [[1, 2, 3], [4, 5, 6], [7, 0, 8]] p goal_state \<and>
      is_distance [[1, 2, 3], [4, 5, 6], [7, 0, 8]] goal_state (length p) \<and>
      (one_blank_swap [[1, 2, 3], [4, 5, 6], [7, 0, 8]] goal_state \<longrightarrow> length p = 1))"
proof -
  have h: "is_config [[1, 2, 3], [4, 5, 6], [7, 0, 8]]" by (simp add: is_config_def)
  have "leads_to [[1, 2, 3], [4, 5, 6], [7, 0, 8]] [goal_state] goal_state"
    by (simp add: leads_to_def goal_state_def explicit_swaps)
  then have r: "reachable [[1, 2, 3], [4, 5, 6], [7, 0, 8]] goal_state"
    unfolding reachable_def by blast
  from h r solve_bfs_shortest [OF h r] show ?thesis by blast
qed

text \<open>
  Claim C10. When the initial configuration is the goal configuration, \<^verbatim>\<open>solve_bfs\<close> and
  \<^verbatim>\<open>solve_bidirectional\<close> both return the empty list of configurations.
\<close>

theorem goal_start_empty_path:
  "solve_bfs goal_state = Some (Inr (Some [])) \<and>
   solve_bidirectional goal_state = Some (Inr (Some []))"
  by code_simp

text \<open>
  Claim C2 says that a path returned by \<^verbatim>\<open>solve_bfs\<close> or \<^verbatim>\<open>solve_bidirectional\<close> moves
  by one legal blank swap at every step and ends in the goal configuration. For the
  configuration \<^verbatim>\<open>[[1,2,3],[4,0,5],[7,8,6]]\<close>, two moves from the goal,
  \<^verbatim>\<open>solve_bidirectional\<close> returns the meeting state twice: the forward path already ends
  in the meeting state, and the stored backward path, reversed, begins with it again and
  stops one move short of the goal. The returned list is not a path of legal moves and its
  last element is not the goal. \<^verbatim>\<open>solve_bfs\<close> returns a correct two-move path for the same
  configuration.
\<close>

theorem bidirectional_disconnected_path:
  "solve_bidirectional [[1, 2, 3], [4, 0, 5], [7, 8, 6]] =
     Some (Inr (Some [[[1, 2, 3], [4, 5, 0], [7, 8, 6]], [[1, 2, 3], [4, 5, 0], [7, 8, 6]]])) \<and>
   \<not> valid_path [[1, 2, 3], [4, 0, 5], [7, 8, 6]]
       [[[1, 2, 3], [4, 5, 0], [7, 8, 6]], [[1, 2, 3], [4, 5, 0], [7, 8, 6]]] \<and>
   last [[[1, 2, 3], [4, 5, 0], [7, 8, 6]], [[1, 2, 3], [4, 5, 0], [7, 8, 6]]] \<noteq> goal_state \<and>
   is_config [[1, 2, 3], [4, 0, 5], [7, 8, 6]] \<and>
   solve_bfs [[1, 2, 3], [4, 0, 5], [7, 8, 6]] =
     Some (Inr (Some [[[1, 2, 3], [4, 5, 0], [7, 8, 6]], goal_state]))"
proof -
  have c: "is_config [[1, 2, 3], [4, 5, 0], [7, 8, 6]]" by (simp add: is_config_def)
  have "\<not> one_blank_swap [[1, 2, 3], [4, 5, 0], [7, 8, 6]] [[1, 2, 3], [4, 5, 0], [7, 8, 6]]"
    using swap_differs [OF c] by blast
  moreover have "solve_bidirectional [[1, 2, 3], [4, 0, 5], [7, 8, 6]] =
     Some (Inr (Some [[[1, 2, 3], [4, 5, 0], [7, 8, 6]], [[1, 2, 3], [4, 5, 0], [7, 8, 6]]]))"
    by code_simp
  moreover have "solve_bfs [[1, 2, 3], [4, 0, 5], [7, 8, 6]] =
     Some (Inr (Some [[[1, 2, 3], [4, 5, 0], [7, 8, 6]], goal_state]))"
    by code_simp
  moreover have "is_config [[1, 2, 3], [4, 0, 5], [7, 8, 6]]" by (simp add: is_config_def)
  ultimately show ?thesis by (simp add: goal_state_def)
qed

section \<open>The simulated-annealing loop\<close>

lemma exp_no_overflow:
  assumes "x \<le> 0"
  shows "\<not> exp_overflows x"
proof -
  from assms have "exp x \<le> 1" by simp
  moreover have "(1::real) < 2 ^ 1024" by (rule one_less_power) simp_all
  ultimately have "exp x < 2 ^ 1024" by (rule le_less_trans)
  then show ?thesis unfolding exp_overflows_def by (simp only: not_le)
qed

lemma sa_accept_inv:
  assumes inv: "sa_invariant init n v" and c: "is_config next_state"
  shows "\<exists>v'. sa_accept rnd k next_state next_energy v = Inr v' \<and> sa_invariant init (Suc n) v'"
proof (cases "next_energy < current_energy v")
  case True
  with inv c show ?thesis by (auto simp: sa_accept_def sa_invariant_def Let_def)
next
  case False
  from inv have t: "0 < temperature v" by (simp add: sa_invariant_def)
  from False have "0 \<le> real_of_int (next_energy - current_energy v)" by simp
  with t have "- real_of_int (next_energy - current_energy v) / temperature v \<le> 0"
    by (simp add: divide_nonpos_pos)
  then have no: "\<not> exp_overflows (- real_of_int (next_energy - current_energy v) / temperature v)"
    by (rule exp_no_overflow)
  from t have ne: "temperature v \<noteq> 0" by simp
  have "sa_accept rnd k next_state next_energy v =
      (if rnd k < exp (- real_of_int (next_energy - current_energy v) / temperature v)
       then Inr (v\<lparr>current_state := next_state, current_energy := next_energy,
                    path := path v @ [next_state]\<rparr>)
       else Inr v)"
    unfolding sa_accept_def Let_def using False ne no by (simp only: if_False)
  with inv c show ?thesis by (simp add: sa_invariant_def)
qed

lemma sa_cool_inv:
  assumes inv: "sa_invariant init n v" and t0: "0.02 \<le> initial_temp"
  shows "sa_invariant init n (sa_cool initial_temp cooling_rate v)"
  using assms by (auto simp: sa_cool_def sa_invariant_def Let_def)

lemma sa_step_inv:
  assumes inv: "sa_invariant init n v" and t0: "0.02 \<le> initial_temp"
  shows "\<exists>v'. sa_step choice rnd initial_temp cooling_rate k v = Inr v' \<and>
           sa_invariant init (Suc n) v'"
proof -
  from inv have "is_config (current_state v)" by (simp add: sa_invariant_def)
  from config_neighbors [OF this] obtain ns where ns: "get_neighbors (current_state v) = Inr ns"
    and cns: "\<forall>n \<in> set ns. is_config n" and ne: "ns \<noteq> []" by blast
  let ?next = "ns ! (choice k mod length ns)"
  from ne have "choice k mod length ns < length ns" by simp
  then have "?next \<in> set ns" by (rule nth_mem)
  with cns have cn: "is_config ?next" by blast
  from manhattan_config [OF cn] obtain e where e: "manhattan_distance ?next = Inr e" by blast
  from sa_accept_inv [OF inv cn] obtain v' where
    a: "sa_accept rnd k ?next e v = Inr v'" and i': "sa_invariant init (Suc n) v'" by blast
  from sa_cool_inv [OF i' t0] have "sa_invariant init (Suc n) (sa_cool initial_temp cooling_rate v')" .
  moreover have "sa_step choice rnd initial_temp cooling_rate k v =
      Inr (sa_cool initial_temp cooling_rate v')"
    using ns ne e a by (simp add: sa_step_def Let_def)
  ultimately show ?thesis by blast
qed

lemma sa_loop_inv:
  assumes "sa_invariant init n v" "0.02 \<le> initial_temp"
  shows "\<exists>p. sa_loop choice rnd initial_temp cooling_rate iters v = Inr p \<and>
           p \<noteq> [] \<and> hd p = init \<and> length p \<le> Suc (n + length iters)"
  using assms(1)
proof (induction iters arbitrary: n v)
  case Nil
  then show ?case by (simp add: sa_invariant_def)
next
  case (Cons k iters)
  show ?case
  proof (cases "current_energy v = 0")
    case True
    with Cons.prems show ?thesis by (simp add: sa_invariant_def)
  next
    case False
    from sa_step_inv [OF Cons.prems assms(2)] obtain v' where
      st: "sa_step choice rnd initial_temp cooling_rate k v = Inr v'"
      and i': "sa_invariant init (Suc n) v'" by blast
    from Cons.IH [OF i'] False st show ?thesis by simp
  qed
qed

lemma sa_loop_energy_zero:
  assumes "current_energy v = 0"
  shows "sa_loop choice rnd initial_temp cooling_rate iters v = Inr (path v)"
  using assms by (cases iters) simp_all

lemma solve_sa_returns:
  assumes "is_config init" "0.02 \<le> initial_temp"
  shows "\<exists>p. solve_simulated_annealing choice rnd init max_iterations initial_temp cooling_rate
             = Inr p \<and> p \<noteq> [] \<and> hd p = init \<and> length p \<le> Suc (nat max_iterations)"
proof -
  from manhattan_config [OF assms(1)] obtain e where e: "manhattan_distance init = Inr e" by blast
  let ?v = "\<lparr>current_state = init, current_energy = e, best_state = init, best_energy = e,
             temperature = initial_temp, path = [init]\<rparr>"
  have "sa_invariant init 0 ?v" using assms by (simp add: sa_invariant_def)
  from sa_loop_inv [OF this assms(2), of choice rnd cooling_rate "[0 ..< nat max_iterations]"] e
  show ?thesis by (simp add: solve_simulated_annealing_def)
qed

lemma solve_sa_no_iterations:
  assumes "is_config init" "max_iterations \<le> 0"
  shows "solve_simulated_annealing choice rnd init max_iterations initial_temp cooling_rate
           = Inr [init]"
proof -
  from manhattan_config [OF assms(1)] obtain e where e: "manhattan_distance init = Inr e" by blast
  with assms(2) show ?thesis by (simp add: solve_simulated_annealing_def)
qed

lemma solve_sa_at_goal:
  "solve_simulated_annealing choice rnd goal_state max_iterations initial_temp cooling_rate
     = Inr [goal_state]"
  by (simp add: solve_simulated_annealing_def manhattan_goal sa_loop_energy_zero)

end
